theory Spec2Isabelle
  imports Complex_Main
begin

section \<open>The ambient-sounds hook\<close>

text \<open>
  The repository holds three revisions of one React hook, \<^verbatim>\<open>useAmbientSounds\<close>. This
  development embeds the revision that owns a generation counter (\<^verbatim>\<open>playIdRef\<close>), a
  pending resource (\<^verbatim>\<open>pendingAudioRef\<close>) and a retry timer (\<^verbatim>\<open>loadTimeoutRef\<close>): it is the
  only revision in which a callback captures a generation.

  The hook is event driven and single threaded. Every handler of the source runs to
  completion, so each one is a function from the state before to the state after. The
  state is the hook's React state and refs together with the part of the host that the
  handlers touch: the heap of \<^verbatim>\<open>Audio\<close> elements, the closures that \<^verbatim>\<open>playSound\<close> registered
  with the host (event listeners, promise reactions, the timer), \<^verbatim>\<open>localStorage\<close> and the
  console. React state is read as of the latest render: a handler sees the values the
  previous handler set.
\<close>

subsection \<open>JavaScript numbers\<close>

text \<open>
  A \<^verbatim>\<open>number\<close> is \<^verbatim>\<open>NaN\<close>, an infinity, or a finite value. A finite value is identified
  with the decimal numeral that denotes it (\<open>Num (3/10)\<close> is the literal \<^verbatim>\<open>0.3\<close>). A numeral
  beyond the range of binary64 becomes an infinity or zero, as it does in the host; the
  rounding of a numeral within the range, and the sign of zero, are not modelled.
\<close>

datatype number = NaN | PosInfinity | NegInfinity | Num rat

datatype exn = TypeError | IndexSizeError

text \<open>
  The setter of \<^verbatim>\<open>HTMLMediaElement.volume\<close>: a value that is not a finite double is a
  \<^verbatim>\<open>TypeError\<close>, a finite value outside \<open>[0, 1]\<close> an \<^verbatim>\<open>IndexSizeError\<close>; otherwise the
  value is stored.
\<close>

fun volume_setter :: "number \<Rightarrow> exn option" where
  "volume_setter (Num q) = (if 0 \<le> q \<and> q \<le> 1 then None else Some IndexSizeError)"
| "volume_setter _ = Some TypeError"

subsection \<open>The host's \<^verbatim>\<open>parseFloat\<close>\<close>

text \<open>
  \<^verbatim>\<open>parseFloat\<close> skips leading white space and line terminators and reads the longest
  prefix that is a decimal literal: an optional sign, then \<^verbatim>\<open>Infinity\<close>, or digits with an
  optional fraction and an optional exponent. Anything after the literal is ignored.
  When no prefix is a literal the result is \<^verbatim>\<open>NaN\<close>. Strings are sequences of bytes, in
  UTF-8: the white space beyond ASCII takes two or three bytes.
\<close>

definition is_digit :: "char \<Rightarrow> bool" where
  "is_digit c = (c \<in> set ''0123456789'')"

text \<open>The white space and line terminators of one byte.\<close>

definition is_space :: "char \<Rightarrow> bool" where
  "is_space c = (c \<in> {CHR '' '', CHR 0x09, CHR 0x0A, CHR 0x0B, CHR 0x0C, CHR 0x0D})"

text \<open>
  Those of two and three bytes: U+00A0; U+1680, U+2000 to U+200A, U+2028, U+2029,
  U+202F, U+205F, U+3000 and U+FEFF.
\<close>

definition is_space2 :: "char \<Rightarrow> char \<Rightarrow> bool" where
  "is_space2 a b = (a = CHR 0xC2 \<and> b = CHR 0xA0)"

definition is_space3 :: "char \<Rightarrow> char \<Rightarrow> char \<Rightarrow> bool" where
  "is_space3 a b c =
     (a = CHR 0xE1 \<and> b = CHR 0x9A \<and> c = CHR 0x80 \<or>
      a = CHR 0xE2 \<and> b = CHR 0x80 \<and>
        ((0x80 :: nat) \<le> of_char c \<and> (of_char c :: nat) \<le> 0x8A \<or>
         c = CHR 0xA8 \<or> c = CHR 0xA9 \<or> c = CHR 0xAF) \<or>
      a = CHR 0xE2 \<and> b = CHR 0x81 \<and> c = CHR 0x9F \<or>
      a = CHR 0xE3 \<and> b = CHR 0x80 \<and> c = CHR 0x80 \<or>
      a = CHR 0xEF \<and> b = CHR 0xBB \<and> c = CHR 0xBF)"

text \<open>The number of bytes of the white-space character a string starts with, or 0.\<close>

definition space_width :: "string \<Rightarrow> nat" where
  "space_width s =
     (case s of
        [] \<Rightarrow> 0
      | a # r \<Rightarrow>
          if is_space a then 1
          else
            (case r of
               [] \<Rightarrow> 0
             | b # r' \<Rightarrow>
                 if is_space2 a b then 2
                 else
                   (case r' of
                      [] \<Rightarrow> 0
                    | c # _ \<Rightarrow> if is_space3 a b c then 3 else 0)))"

function trim_start :: "string \<Rightarrow> string" where
  "trim_start s =
     (if space_width s = 0 \<or> length s < space_width s then s
      else trim_start (drop (space_width s) s))"
  by pat_completeness auto
termination
  by (relation "measure length") auto

definition digit_val :: "char \<Rightarrow> nat" where
  "digit_val c = of_char c - 48"

definition digits_val :: "string \<Rightarrow> nat" where
  "digits_val ds = foldl (\<lambda>n c. 10 * n + digit_val c) 0 ds"

definition is_prefix :: "string \<Rightarrow> string \<Rightarrow> bool" where
  "is_prefix p s = (take (length p) s = p)"

text \<open>The exponent part of a literal, as a power of ten (1 when there is none).\<close>

definition exponent :: "string \<Rightarrow> rat" where
  "exponent s =
     (case s of
        [] \<Rightarrow> 1
      | c # r \<Rightarrow>
          if c = CHR ''e'' \<or> c = CHR ''E'' then
            (let neg = (r \<noteq> [] \<and> hd r = CHR ''-'');
                 r' = (if r \<noteq> [] \<and> (hd r = CHR ''-'' \<or> hd r = CHR ''+'') then tl r else r);
                 ds = takeWhile is_digit r'
             in if ds = [] then 1
                else if neg then 1 / 10 ^ digits_val ds
                else 10 ^ digits_val ds)
          else 1)"

text \<open>
  The value of an unsigned numeral as a number: at or above \<open>2 ^ 1024 - 2 ^ 970\<close>, halfway
  from the largest double to the next power of two, it rounds to infinity; at or below
  \<open>1 / 2 ^ 1075\<close>, half the smallest double, it rounds to zero.
\<close>

definition in_range :: "rat \<Rightarrow> number" where
  "in_range q =
     (if 2 ^ 1024 - 2 ^ 970 \<le> q then PosInfinity
      else if q \<le> 1 / 2 ^ 1075 then Num 0
      else Num q)"

definition unsigned_literal :: "string \<Rightarrow> number" where
  "unsigned_literal s =
     (if is_prefix ''Infinity'' s then PosInfinity
      else
        (let ip = takeWhile is_digit s;
             r = dropWhile is_digit s;
             fp = (if r \<noteq> [] \<and> hd r = CHR ''.'' then takeWhile is_digit (tl r) else []);
             r' = (if r \<noteq> [] \<and> hd r = CHR ''.'' then dropWhile is_digit (tl r) else r)
         in if ip = [] \<and> fp = [] then NaN
            else in_range (of_nat (digits_val (ip @ fp)) / 10 ^ length fp * exponent r')))"

definition negate :: "number \<Rightarrow> number" where
  "negate x = (case x of NaN \<Rightarrow> NaN | PosInfinity \<Rightarrow> NegInfinity
                | NegInfinity \<Rightarrow> PosInfinity | Num q \<Rightarrow> Num (- q))"

definition parseFloat :: "string \<Rightarrow> number" where
  "parseFloat input =
     (let s = trim_start input in
      case s of
        [] \<Rightarrow> NaN
      | c # r \<Rightarrow>
          if c = CHR ''-'' then negate (unsigned_literal r)
          else if c = CHR ''+'' then unsigned_literal r
          else unsigned_literal s)"

subsection \<open>The host's \<^verbatim>\<open>localStorage\<close>\<close>

text \<open>
  The store is a list of key-value pairs, read and written by key. A host that refuses
  access to the store or runs out of quota is not modelled.
\<close>

type_synonym storage = "(string \<times> string) list"

definition getItem :: "string \<Rightarrow> storage \<Rightarrow> string option" where
  "getItem k ls = map_of ls k"

definition setItem :: "string \<Rightarrow> string \<Rightarrow> storage \<Rightarrow> storage" where
  "setItem k v ls = (k, v) # filter (\<lambda>p. fst p \<noteq> k) ls"

subsection \<open>Data model\<close>

record AmbientSound =
  id' :: string
  name :: string
  icon :: string
  audioUrl :: string
  description :: string

text \<open>The catalog. The icons are the UTF-8 bytes of the source's glyphs.\<close>

definition AMBIENT_SOUNDS :: "AmbientSound list" where
  "AMBIENT_SOUNDS =
     [\<lparr>id' = ''bird-sound'', name = ''Birds'',
       icon = [CHR 0xE2, CHR 0x97, CHR 0xA6],
       audioUrl = ''/sounds/ambients/bird sound.mp3'',
       description = ''Gentle bird chirping''\<rparr>,
      \<lparr>id' = ''bird-sound-2'', name = ''Forest Birds'',
       icon = [CHR 0xE2, CHR 0x97, CHR 0x88],
       audioUrl = ''/sounds/ambients/bird sound 2.mp3'',
       description = ''Forest ambience with birds''\<rparr>,
      \<lparr>id' = ''bird-sound-3'', name = ''Morning Birds'',
       icon = [CHR 0xE2, CHR 0x97, CHR 0x90],
       audioUrl = ''/sounds/ambients/bird sound 3 (2).mp3'',
       description = ''Morning bird sounds''\<rparr>,
      \<lparr>id' = ''rain'', name = ''Rain'',
       icon = [CHR 0xE2, CHR 0x97, CHR 0x8F],
       audioUrl = ''/sounds/ambients/rain.mp3'',
       description = ''Soft rainfall for focus''\<rparr>]"

definition birds :: AmbientSound where
  "birds = AMBIENT_SOUNDS ! 0"

definition forest :: AmbientSound where
  "forest = AMBIENT_SOUNDS ! 1"

definition rain :: AmbientSound where
  "rain = AMBIENT_SOUNDS ! 3"

text \<open>
  An \<^verbatim>\<open>Audio\<close> element of the host. \<open>playing\<close> holds while the element produces sound:
  the host sets it when a \<^verbatim>\<open>play()\<close> promise is fulfilled, \<^verbatim>\<open>pause()\<close> clears it. The
  playback position (\<^verbatim>\<open>currentTime\<close>) is not modelled.
\<close>

record HTMLAudioElement =
  src :: string
  preload :: string
  loop :: bool
  audio_volume :: number
  playing :: bool

definition new_Audio :: HTMLAudioElement where
  "new_Audio = \<lparr>src = [], preload = ''metadata'', loop = False,
                 audio_volume = Num 1, playing = False\<rparr>"

text \<open>
  What one call of \<^verbatim>\<open>playSound\<close> leaves with the host: the captured \<^verbatim>\<open>thisPlayId\<close>,
  \<^verbatim>\<open>sound\<close> and \<^verbatim>\<open>audio\<close> (an index into the heap of elements), the local \<^verbatim>\<open>started\<close>, and
  what the host still owes the closure: the number of \<^verbatim>\<open>play()\<close> promises not yet settled,
  whether the two \<^verbatim>\<open>once\<close> listeners are still registered, and whether its timer is
  still scheduled.
\<close>

record closure =
  thisPlayId :: nat
  sound :: AmbientSound
  audio :: nat
  started :: bool
  plays :: nat
  canplayArmed :: bool
  errorArmed :: bool
  timerArmed :: bool

record hook =
  isPlaying :: bool
  currentSound :: "AmbientSound option"
  isLoading :: bool
  volume :: number
  audioRef :: "nat option"
  volumeRef :: number
  playIdRef :: nat
  pendingAudioRef :: "nat option"
  loadTimeoutRef :: "nat option"
  audios :: "HTMLAudioElement list"
  closures :: "closure list"
  localStorage :: storage
  console :: "string list list"

subsection \<open>Mounting\<close>

text \<open>
  \<^verbatim>\<open>savedVolume ? parseFloat(savedVolume) : 0.3\<close>: a missing key reads as \<^verbatim>\<open>null\<close>, and
  the only falsy string is the empty one. The host's parser is a parameter.
\<close>

definition initialVolume :: "(string \<Rightarrow> number) \<Rightarrow> storage \<Rightarrow> number" where
  "initialVolume parse ls =
     (case getItem ''ambientSoundVolume'' ls of
        None \<Rightarrow> Num (3 / 10)
      | Some savedVolume \<Rightarrow>
          if savedVolume \<noteq> [] then parse savedVolume else Num (3 / 10))"

definition useAmbientSounds :: "(string \<Rightarrow> number) \<Rightarrow> storage \<Rightarrow> hook" where
  "useAmbientSounds parse ls =
     \<lparr>isPlaying = False, currentSound = None, isLoading = False,
      volume = initialVolume parse ls, audioRef = None,
      volumeRef = initialVolume parse ls, playIdRef = 0,
      pendingAudioRef = None, loadTimeoutRef = None,
      audios = [], closures = [], localStorage = ls, console = []\<rparr>"

subsection \<open>Helpers on the heap and the closures\<close>

definition modify :: "nat \<Rightarrow> ('a \<Rightarrow> 'a) \<Rightarrow> 'a list \<Rightarrow> 'a list" where
  "modify i f xs = (if i < length xs then xs[i := f (xs ! i)] else xs)"

text \<open>\<^verbatim>\<open>a.pause()\<close>, and \<^verbatim>\<open>a.pause(); a.src = ''\<close>.\<close>

definition pause :: "nat \<Rightarrow> hook \<Rightarrow> hook" where
  "pause a s = s\<lparr>audios := modify a (\<lambda>e. e\<lparr>playing := False\<rparr>) (audios s)\<rparr>"

definition release :: "nat \<Rightarrow> hook \<Rightarrow> hook" where
  "release a s = s\<lparr>audios := modify a (\<lambda>e. e\<lparr>src := [], playing := False\<rparr>) (audios s)\<rparr>"

text \<open>\<^verbatim>\<open>clearTimeout(t)\<close>: the timer of closure \<open>t\<close> will not fire.\<close>

definition clearTimeout :: "nat \<Rightarrow> hook \<Rightarrow> hook" where
  "clearTimeout t s = s\<lparr>closures := modify t (\<lambda>c. c\<lparr>timerArmed := False\<rparr>) (closures s)\<rparr>"

text \<open>The three blocks that \<^verbatim>\<open>stopSound\<close> and \<^verbatim>\<open>playSound\<close> both open with.\<close>

definition clearRetry :: "hook \<Rightarrow> hook" where
  "clearRetry s =
     (case loadTimeoutRef s of
        None \<Rightarrow> s
      | Some t \<Rightarrow> (clearTimeout t s)\<lparr>loadTimeoutRef := None\<rparr>)"

definition releasePending :: "hook \<Rightarrow> hook" where
  "releasePending s =
     (case pendingAudioRef s of
        None \<Rightarrow> s
      | Some a \<Rightarrow> (release a s)\<lparr>pendingAudioRef := None\<rparr>)"

definition releaseActive :: "hook \<Rightarrow> hook" where
  "releaseActive s =
     (case audioRef s of
        None \<Rightarrow> s
      | Some a \<Rightarrow> (release a s)\<lparr>audioRef := None\<rparr>)"

subsection \<open>The operations\<close>

definition stopSound :: "hook \<Rightarrow> hook" where
  "stopSound s =
     (let s1 = s\<lparr>playIdRef := playIdRef s + 1\<rparr>;
          s2 = releaseActive (releasePending (clearRetry s1))
      in s2\<lparr>isPlaying := False, currentSound := None, isLoading := False\<rparr>)"

text \<open>
  The cleanup that runs when the owner of the hook is torn down: \<^verbatim>\<open>stopSound\<close> without
  the three state setters (and without rewinding the elements).
\<close>

definition unmount :: "hook \<Rightarrow> hook" where
  "unmount s =
     (let s1 = s\<lparr>playIdRef := playIdRef s + 1\<rparr>
      in releaseActive (releasePending (clearRetry s1)))"

text \<open>
  \<^verbatim>\<open>startPlayback\<close> of closure \<open>k\<close>: after the two guards it calls \<^verbatim>\<open>audio.play()\<close>, which
  leaves one more promise for the host to settle.
\<close>

definition startPlayback :: "nat \<Rightarrow> hook \<Rightarrow> hook" where
  "startPlayback k s =
     (let c = closures s ! k in
      if started c then s
      else if playIdRef s \<noteq> thisPlayId c then s
      else s\<lparr>closures := modify k (\<lambda>c. c\<lparr>plays := plays c + 1\<rparr>) (closures s)\<rparr>)"

text \<open>The reaction \<^verbatim>\<open>.then(() => ...)\<close> of closure \<open>k\<close> to a fulfilled \<^verbatim>\<open>play()\<close>.\<close>

definition play_then :: "nat \<Rightarrow> hook \<Rightarrow> hook" where
  "play_then k s =
     (let c = closures s ! k in
      if playIdRef s \<noteq> thisPlayId c then pause (audio c) s
      else
        clearRetry
          (s\<lparr>closures := modify k (\<lambda>c. c\<lparr>started := True\<rparr>) (closures s),
             audioRef := Some (audio c),
             pendingAudioRef := None,
             currentSound := Some (sound c),
             isPlaying := True,
             isLoading := False\<rparr>))"

definition handleError :: "nat \<Rightarrow> hook \<Rightarrow> hook" where
  "handleError k s =
     (let c = closures s ! k in
      if playIdRef s \<noteq> thisPlayId c then s
      else s\<lparr>console := console s @ [[''Error loading sound:'', audioUrl (sound c)]],
             isLoading := False\<rparr>)"

definition exn_name :: "exn \<Rightarrow> string" where
  "exn_name e = (case e of TypeError \<Rightarrow> ''TypeError'' | IndexSizeError \<Rightarrow> ''IndexSizeError'')"

text \<open>
  \<^verbatim>\<open>playSound\<close>. Inside the \<^verbatim>\<open>try\<close> only the volume setter can throw; the element has been
  created by then, and nothing refers to it afterwards.
\<close>

definition playSound :: "AmbientSound \<Rightarrow> hook \<Rightarrow> hook" where
  "playSound sd s =
     (let thisId = playIdRef s + 1;
          s1 = s\<lparr>playIdRef := thisId, isLoading := True\<rparr>;
          s2 = releaseActive (releasePending (clearRetry s1));
          a = length (audios s2);
          s3 = s2\<lparr>audios := audios s2 @ [new_Audio\<lparr>preload := ''auto'', loop := True\<rparr>]\<rparr>
      in case volume_setter (volumeRef s3) of
           Some e \<Rightarrow>
             if playIdRef s3 \<noteq> thisId then s3
             else s3\<lparr>console := console s3 @ [[''Error setting up ambient sound:'', exn_name e]],
                     isLoading := False\<rparr>
         | None \<Rightarrow>
             (let k = length (closures s3);
                  s4 = s3\<lparr>audios := modify a (\<lambda>e. e\<lparr>audio_volume := volumeRef s3\<rparr>) (audios s3),
                          pendingAudioRef := Some a\<rparr>;
                  s5 = s4\<lparr>closures := closures s4 @
                            [\<lparr>thisPlayId = thisId, sound = sd, audio = a, started = False,
                              plays = 0, canplayArmed = True, errorArmed = True,
                              timerArmed = False\<rparr>]\<rparr>;
                  s6 = s5\<lparr>audios := modify a (\<lambda>e. e\<lparr>src := audioUrl sd\<rparr>) (audios s5)\<rparr>;
                  s7 = startPlayback k s6
              in s7\<lparr>loadTimeoutRef := Some k,
                    closures := modify k (\<lambda>c. c\<lparr>timerArmed := True\<rparr>) (closures s7)\<rparr>))"

text \<open>\<^verbatim>\<open>currentSound?.id === sound.id\<close> is false when \<^verbatim>\<open>currentSound\<close> is \<^verbatim>\<open>null\<close>.\<close>

definition same_sound :: "AmbientSound option \<Rightarrow> AmbientSound \<Rightarrow> bool" where
  "same_sound cur sd = (case cur of None \<Rightarrow> False | Some c \<Rightarrow> id' c = id' sd)"

definition toggleSound :: "AmbientSound \<Rightarrow> hook \<Rightarrow> hook" where
  "toggleSound sd s =
     (if isPlaying s \<and> same_sound (currentSound s) sd then stopSound s
      else playSound sd s)"

text \<open>
  \<^verbatim>\<open>changeVolume\<close>. The host's \<^verbatim>\<open>Number.prototype.toString\<close> is a parameter. The setter of
  the active element can throw; the three writes before it have happened by then, and
  the exception leaves the handler.
\<close>

definition changeVolume :: "(number \<Rightarrow> string) \<Rightarrow> number \<Rightarrow> hook \<Rightarrow> hook \<times> exn option" where
  "changeVolume toString newVolume s =
     (let s1 = s\<lparr>volume := newVolume, volumeRef := newVolume,
                 localStorage := setItem ''ambientSoundVolume'' (toString newVolume) (localStorage s)\<rparr>
      in case audioRef s1 of
           None \<Rightarrow> (s1, None)
         | Some a \<Rightarrow>
             (case volume_setter newVolume of
                Some e \<Rightarrow> (s1, Some e)
              | None \<Rightarrow>
                  (s1\<lparr>audios := modify a (\<lambda>e. e\<lparr>audio_volume := newVolume\<rparr>) (audios s1)\<rparr>, None)))"

subsection \<open>Events\<close>

text \<open>
  What can happen to a mounted hook: the four intents of the UI, and what the host
  delivers to closure \<open>k\<close>: its \<^verbatim>\<open>canplay\<close> and \<^verbatim>\<open>error\<close> events, its timer, and the
  settlement of one of its \<^verbatim>\<open>play()\<close> promises.
\<close>

datatype event =
    Play AmbientSound
  | Stop
  | Toggle AmbientSound
  | ChangeVolume number
  | CanPlay nat
  | LoadError nat
  | Timeout nat
  | PlayResolved nat
  | PlayRejected nat

fun enabled :: "event \<Rightarrow> hook \<Rightarrow> bool" where
  "enabled (CanPlay k) s = (k < length (closures s) \<and> canplayArmed (closures s ! k))"
| "enabled (LoadError k) s = (k < length (closures s) \<and> errorArmed (closures s ! k))"
| "enabled (Timeout k) s = (k < length (closures s) \<and> timerArmed (closures s ! k))"
| "enabled (PlayResolved k) s = (k < length (closures s) \<and> 0 < plays (closures s ! k))"
| "enabled (PlayRejected k) s = (k < length (closures s) \<and> 0 < plays (closures s ! k))"
| "enabled _ s = True"

text \<open>The host's part of a delivery, before the handler runs.\<close>

definition settle :: "nat \<Rightarrow> hook \<Rightarrow> hook" where
  "settle k s = s\<lparr>closures := modify k (\<lambda>c. c\<lparr>plays := plays c - 1\<rparr>) (closures s)\<rparr>"

definition begin_playback :: "nat \<Rightarrow> hook \<Rightarrow> hook" where
  "begin_playback k s =
     s\<lparr>audios := modify (audio (closures s ! k)) (\<lambda>e. e\<lparr>playing := True\<rparr>) (audios s)\<rparr>"

fun fire :: "(number \<Rightarrow> string) \<Rightarrow> event \<Rightarrow> hook \<Rightarrow> hook" where
  "fire ts (Play sd) s = playSound sd s"
| "fire ts Stop s = stopSound s"
| "fire ts (Toggle sd) s = toggleSound sd s"
| "fire ts (ChangeVolume v) s = fst (changeVolume ts v s)"
| "fire ts (CanPlay k) s =
     startPlayback k (s\<lparr>closures := modify k (\<lambda>c. c\<lparr>canplayArmed := False\<rparr>) (closures s)\<rparr>)"
| "fire ts (LoadError k) s =
     handleError k (s\<lparr>closures := modify k (\<lambda>c. c\<lparr>errorArmed := False\<rparr>) (closures s)\<rparr>)"
| "fire ts (Timeout k) s =
     startPlayback k (s\<lparr>closures := modify k (\<lambda>c. c\<lparr>timerArmed := False\<rparr>) (closures s)\<rparr>)"
| "fire ts (PlayResolved k) s = play_then k (begin_playback k (settle k s))"
| "fire ts (PlayRejected k) s = settle k s"

definition step :: "(number \<Rightarrow> string) \<Rightarrow> event \<Rightarrow> hook \<Rightarrow> hook" where
  "step ts e s = (if enabled e s then fire ts e s else s)"

fun run :: "(number \<Rightarrow> string) \<Rightarrow> event list \<Rightarrow> hook \<Rightarrow> hook" where
  "run ts [] s = s"
| "run ts (e # es) s = run ts es (step ts e s)"

inductive reachable :: "(number \<Rightarrow> string) \<Rightarrow> hook \<Rightarrow> bool" for ts where
  mount: "reachable ts (useAmbientSounds parse ls)"
| after: "reachable ts s \<Longrightarrow> reachable ts (step ts e s)"

subsection \<open>What the UI observes\<close>

definition observable :: "hook \<Rightarrow> bool \<times> AmbientSound option \<times> bool" where
  "observable s = (isPlaying s, currentSound s, isLoading s)"

definition Idle :: "bool \<times> AmbientSound option \<times> bool" where
  "Idle = (False, None, False)"

subsection \<open>Invariants of the reachable states\<close>

text \<open>
  Closures carry generations that have been issued and elements that exist, and no two
  closures share a generation or an element.
\<close>

definition inv_closures :: "hook \<Rightarrow> bool" where
  "inv_closures s =
     ((\<forall>k<length (closures s).
         thisPlayId (closures s ! k) \<le> playIdRef s \<and>
         audio (closures s ! k) < length (audios s)) \<and>
      (\<forall>k<length (closures s). \<forall>j<length (closures s).
         thisPlayId (closures s ! k) = thisPlayId (closures s ! j) \<or>
         audio (closures s ! k) = audio (closures s ! j) \<longrightarrow> k = j))"

text \<open>Only the active element produces sound.\<close>

definition inv_playing :: "hook \<Rightarrow> bool" where
  "inv_playing s =
     (\<forall>i<length (audios s). playing (audios s ! i) \<longrightarrow> audioRef s = Some i)"

text \<open>Once the closure of the live generation has started, the hook is playing its sound.\<close>

definition inv_live :: "hook \<Rightarrow> bool" where
  "inv_live s =
     (\<forall>k<length (closures s).
        started (closures s ! k) \<and> thisPlayId (closures s ! k) = playIdRef s \<longrightarrow>
          audioRef s = Some (audio (closures s ! k)) \<and>
          pendingAudioRef s = None \<and>
          loadTimeoutRef s = None \<and>
          currentSound s = Some (sound (closures s ! k)) \<and>
          isPlaying s \<and> \<not> isLoading s \<and>
          playing (audios s ! audio (closures s ! k)))"

text \<open>
  The active element belongs to the started closure of the live generation, and
  \<open>isPlaying\<close> and \<open>currentSound\<close> are set together, to the sound of a started closure.
\<close>

definition inv_active :: "hook \<Rightarrow> bool" where
  "inv_active s =
     ((\<forall>a. audioRef s = Some a \<longrightarrow>
         (\<exists>k<length (closures s).
            started (closures s ! k) \<and> thisPlayId (closures s ! k) = playIdRef s \<and>
            audio (closures s ! k) = a)) \<and>
      (isPlaying s \<longrightarrow>
         (\<exists>k<length (closures s).
            started (closures s ! k) \<and> currentSound s = Some (sound (closures s ! k)))) \<and>
      (\<not> isPlaying s \<longrightarrow> currentSound s = None))"

definition inv :: "hook \<Rightarrow> bool" where
  "inv s = (inv_closures s \<and> inv_playing s \<and> inv_live s \<and> inv_active s)"

subsection \<open>Deliveries of the host and audible elements\<close>

text \<open>The closure an event is delivered to; the intents of the UI have none.\<close>

definition callback :: "event \<Rightarrow> nat option" where
  "callback e =
     (case e of
        CanPlay k \<Rightarrow> Some k
      | LoadError k \<Rightarrow> Some k
      | Timeout k \<Rightarrow> Some k
      | PlayResolved k \<Rightarrow> Some k
      | PlayRejected k \<Rightarrow> Some k
      | _ \<Rightarrow> None)"

text \<open>The elements that produce sound, by index.\<close>

definition audible :: "hook \<Rightarrow> nat list" where
  "audible s = filter (\<lambda>i. playing (audios s ! i)) [0..<length (audios s)]"

text \<open>The two resource refs point into the heap of elements.\<close>

definition refs_in_range :: "hook \<Rightarrow> bool" where
  "refs_in_range s =
     (\<forall>a. audioRef s = Some a \<or> pendingAudioRef s = Some a \<longrightarrow> a < length (audios s))"

subsection \<open>Supersession\<close>

text \<open>A run in which the UI stays silent: every event is a delivery of the host.\<close>

definition host_only :: "event list \<Rightarrow> bool" where
  "host_only es = list_all (\<lambda>e. callback e \<noteq> None) es"

text \<open>
  The hook is on its way to sound \<open>B\<close> on element \<open>b\<close>: every closure of the live
  generation carries \<open>B\<close> and \<open>b\<close>, and the UI either still shows the \<open>isPlaying\<close> and
  \<open>currentSound\<close> it showed before (\<open>p0\<close>, \<open>c0\<close>) with no active element, or shows \<open>B\<close>
  playing on \<open>b\<close>.
\<close>

definition toward :: "AmbientSound \<Rightarrow> nat \<Rightarrow> bool \<Rightarrow> AmbientSound option \<Rightarrow> hook \<Rightarrow> bool" where
  "toward B b p0 c0 s =
     ((\<forall>k<length (closures s).
         thisPlayId (closures s ! k) = playIdRef s \<longrightarrow>
           sound (closures s ! k) = B \<and> audio (closures s ! k) = b) \<and>
      ((isPlaying s = p0 \<and> currentSound s = c0 \<and> audioRef s = None) \<or>
       (isPlaying s \<and> currentSound s = Some B \<and> \<not> isLoading s \<and> audioRef s = Some b)))"

section \<open>Properties\<close>

subsection \<open>Basic facts\<close>

lemma length_modify [simp]: "length (modify i f xs) = length xs"
  by (simp add: modify_def)

lemma nth_modify:
  "j < length xs \<Longrightarrow> modify i f xs ! j = (if j = i then f (xs ! j) else xs ! j)"
  by (simp add: modify_def)

lemmas release_defs =
  clearRetry_def clearTimeout_def releasePending_def releaseActive_def release_def

subsection \<open>What each handler does to each field\<close>

lemma pause_fields [simp]:
  "isPlaying (pause a s) = isPlaying s"
  "currentSound (pause a s) = currentSound s"
  "isLoading (pause a s) = isLoading s"
  "volume (pause a s) = volume s"
  "audioRef (pause a s) = audioRef s"
  "volumeRef (pause a s) = volumeRef s"
  "playIdRef (pause a s) = playIdRef s"
  "pendingAudioRef (pause a s) = pendingAudioRef s"
  "loadTimeoutRef (pause a s) = loadTimeoutRef s"
  "closures (pause a s) = closures s"
  "localStorage (pause a s) = localStorage s"
  "console (pause a s) = console s"
  by (simp_all add: pause_def)

lemma pause_audios [simp]:
  "length (audios (pause a s)) = length (audios s)"
  "i < length (audios s) \<Longrightarrow> playing (audios (pause a s) ! i) = (playing (audios s ! i) \<and> i \<noteq> a)"
  by (auto simp add: pause_def nth_modify)

lemma release_fields [simp]:
  "isPlaying (release a s) = isPlaying s"
  "currentSound (release a s) = currentSound s"
  "isLoading (release a s) = isLoading s"
  "volume (release a s) = volume s"
  "audioRef (release a s) = audioRef s"
  "volumeRef (release a s) = volumeRef s"
  "playIdRef (release a s) = playIdRef s"
  "pendingAudioRef (release a s) = pendingAudioRef s"
  "loadTimeoutRef (release a s) = loadTimeoutRef s"
  "closures (release a s) = closures s"
  "localStorage (release a s) = localStorage s"
  "console (release a s) = console s"
  by (simp_all add: release_def)

lemma release_audios [simp]:
  "length (audios (release a s)) = length (audios s)"
  "i < length (audios s) \<Longrightarrow> playing (audios (release a s) ! i) = (playing (audios s ! i) \<and> i \<noteq> a)"
  by (auto simp add: release_def nth_modify)

lemma clearTimeout_fields [simp]:
  "isPlaying (clearTimeout t s) = isPlaying s"
  "currentSound (clearTimeout t s) = currentSound s"
  "isLoading (clearTimeout t s) = isLoading s"
  "volume (clearTimeout t s) = volume s"
  "audioRef (clearTimeout t s) = audioRef s"
  "volumeRef (clearTimeout t s) = volumeRef s"
  "playIdRef (clearTimeout t s) = playIdRef s"
  "pendingAudioRef (clearTimeout t s) = pendingAudioRef s"
  "loadTimeoutRef (clearTimeout t s) = loadTimeoutRef s"
  "audios (clearTimeout t s) = audios s"
  "localStorage (clearTimeout t s) = localStorage s"
  "console (clearTimeout t s) = console s"
  by (simp_all add: clearTimeout_def)

lemma clearTimeout_closures [simp]:
  "length (closures (clearTimeout t s)) = length (closures s)"
  "k < length (closures s) \<Longrightarrow> thisPlayId (closures (clearTimeout t s) ! k) = thisPlayId (closures s ! k)"
  "k < length (closures s) \<Longrightarrow> sound (closures (clearTimeout t s) ! k) = sound (closures s ! k)"
  "k < length (closures s) \<Longrightarrow> audio (closures (clearTimeout t s) ! k) = audio (closures s ! k)"
  "k < length (closures s) \<Longrightarrow> started (closures (clearTimeout t s) ! k) = started (closures s ! k)"
  "k < length (closures s) \<Longrightarrow> plays (closures (clearTimeout t s) ! k) = plays (closures s ! k)"
  "k < length (closures s) \<Longrightarrow> canplayArmed (closures (clearTimeout t s) ! k) = canplayArmed (closures s ! k)"
  "k < length (closures s) \<Longrightarrow> errorArmed (closures (clearTimeout t s) ! k) = errorArmed (closures s ! k)"
  by (simp_all add: clearTimeout_def nth_modify split: option.splits)

lemma clearRetry_fields [simp]:
  "isPlaying (clearRetry s) = isPlaying s"
  "currentSound (clearRetry s) = currentSound s"
  "isLoading (clearRetry s) = isLoading s"
  "volume (clearRetry s) = volume s"
  "audioRef (clearRetry s) = audioRef s"
  "volumeRef (clearRetry s) = volumeRef s"
  "playIdRef (clearRetry s) = playIdRef s"
  "pendingAudioRef (clearRetry s) = pendingAudioRef s"
  "audios (clearRetry s) = audios s"
  "localStorage (clearRetry s) = localStorage s"
  "console (clearRetry s) = console s"
  "loadTimeoutRef (clearRetry s) = None"
  by (simp_all add: clearRetry_def split: option.splits)

lemma clearRetry_closures [simp]:
  "length (closures (clearRetry s)) = length (closures s)"
  "k < length (closures s) \<Longrightarrow> thisPlayId (closures (clearRetry s) ! k) = thisPlayId (closures s ! k)"
  "k < length (closures s) \<Longrightarrow> sound (closures (clearRetry s) ! k) = sound (closures s ! k)"
  "k < length (closures s) \<Longrightarrow> audio (closures (clearRetry s) ! k) = audio (closures s ! k)"
  "k < length (closures s) \<Longrightarrow> started (closures (clearRetry s) ! k) = started (closures s ! k)"
  "k < length (closures s) \<Longrightarrow> plays (closures (clearRetry s) ! k) = plays (closures s ! k)"
  "k < length (closures s) \<Longrightarrow> canplayArmed (closures (clearRetry s) ! k) = canplayArmed (closures s ! k)"
  "k < length (closures s) \<Longrightarrow> errorArmed (closures (clearRetry s) ! k) = errorArmed (closures s ! k)"
  by (simp_all add: clearRetry_def nth_modify split: option.splits)

lemma releasePending_fields [simp]:
  "isPlaying (releasePending s) = isPlaying s"
  "currentSound (releasePending s) = currentSound s"
  "isLoading (releasePending s) = isLoading s"
  "volume (releasePending s) = volume s"
  "audioRef (releasePending s) = audioRef s"
  "volumeRef (releasePending s) = volumeRef s"
  "playIdRef (releasePending s) = playIdRef s"
  "loadTimeoutRef (releasePending s) = loadTimeoutRef s"
  "closures (releasePending s) = closures s"
  "localStorage (releasePending s) = localStorage s"
  "console (releasePending s) = console s"
  "pendingAudioRef (releasePending s) = None"
  "length (audios (releasePending s)) = length (audios s)"
  by (simp_all add: releasePending_def split: option.splits)

lemma releasePending_playing [simp]:
  "i < length (audios s) \<Longrightarrow>
   playing (audios (releasePending s) ! i) = (playing (audios s ! i) \<and> pendingAudioRef s \<noteq> Some i)"
  by (auto simp add: releasePending_def split: option.splits)

lemma releaseActive_fields [simp]:
  "isPlaying (releaseActive s) = isPlaying s"
  "currentSound (releaseActive s) = currentSound s"
  "isLoading (releaseActive s) = isLoading s"
  "volume (releaseActive s) = volume s"
  "volumeRef (releaseActive s) = volumeRef s"
  "playIdRef (releaseActive s) = playIdRef s"
  "pendingAudioRef (releaseActive s) = pendingAudioRef s"
  "loadTimeoutRef (releaseActive s) = loadTimeoutRef s"
  "closures (releaseActive s) = closures s"
  "localStorage (releaseActive s) = localStorage s"
  "console (releaseActive s) = console s"
  "audioRef (releaseActive s) = None"
  "length (audios (releaseActive s)) = length (audios s)"
  by (simp_all add: releaseActive_def split: option.splits)

lemma releaseActive_playing [simp]:
  "i < length (audios s) \<Longrightarrow>
   playing (audios (releaseActive s) ! i) = (playing (audios s ! i) \<and> audioRef s \<noteq> Some i)"
  by (auto simp add: releaseActive_def split: option.splits)

lemma startPlayback_fields [simp]:
  "isPlaying (startPlayback k' s) = isPlaying s"
  "currentSound (startPlayback k' s) = currentSound s"
  "isLoading (startPlayback k' s) = isLoading s"
  "volume (startPlayback k' s) = volume s"
  "audioRef (startPlayback k' s) = audioRef s"
  "volumeRef (startPlayback k' s) = volumeRef s"
  "playIdRef (startPlayback k' s) = playIdRef s"
  "pendingAudioRef (startPlayback k' s) = pendingAudioRef s"
  "loadTimeoutRef (startPlayback k' s) = loadTimeoutRef s"
  "audios (startPlayback k' s) = audios s"
  "localStorage (startPlayback k' s) = localStorage s"
  "console (startPlayback k' s) = console s"
  by (simp_all add: startPlayback_def Let_def)

lemma startPlayback_closures [simp]:
  "length (closures (startPlayback k' s)) = length (closures s)"
  "k < length (closures s) \<Longrightarrow> thisPlayId (closures (startPlayback k' s) ! k) = thisPlayId (closures s ! k)"
  "k < length (closures s) \<Longrightarrow> sound (closures (startPlayback k' s) ! k) = sound (closures s ! k)"
  "k < length (closures s) \<Longrightarrow> audio (closures (startPlayback k' s) ! k) = audio (closures s ! k)"
  "k < length (closures s) \<Longrightarrow> started (closures (startPlayback k' s) ! k) = started (closures s ! k)"
  "k < length (closures s) \<Longrightarrow> canplayArmed (closures (startPlayback k' s) ! k) = canplayArmed (closures s ! k)"
  "k < length (closures s) \<Longrightarrow> errorArmed (closures (startPlayback k' s) ! k) = errorArmed (closures s ! k)"
  "k < length (closures s) \<Longrightarrow> timerArmed (closures (startPlayback k' s) ! k) = timerArmed (closures s ! k)"
  by (simp_all add: startPlayback_def Let_def nth_modify split: option.splits)

lemma settle_fields [simp]:
  "isPlaying (settle k' s) = isPlaying s"
  "currentSound (settle k' s) = currentSound s"
  "isLoading (settle k' s) = isLoading s"
  "volume (settle k' s) = volume s"
  "audioRef (settle k' s) = audioRef s"
  "volumeRef (settle k' s) = volumeRef s"
  "playIdRef (settle k' s) = playIdRef s"
  "pendingAudioRef (settle k' s) = pendingAudioRef s"
  "loadTimeoutRef (settle k' s) = loadTimeoutRef s"
  "audios (settle k' s) = audios s"
  "localStorage (settle k' s) = localStorage s"
  "console (settle k' s) = console s"
  by (simp_all add: settle_def)

lemma settle_closures [simp]:
  "length (closures (settle k' s)) = length (closures s)"
  "k < length (closures s) \<Longrightarrow> thisPlayId (closures (settle k' s) ! k) = thisPlayId (closures s ! k)"
  "k < length (closures s) \<Longrightarrow> sound (closures (settle k' s) ! k) = sound (closures s ! k)"
  "k < length (closures s) \<Longrightarrow> audio (closures (settle k' s) ! k) = audio (closures s ! k)"
  "k < length (closures s) \<Longrightarrow> started (closures (settle k' s) ! k) = started (closures s ! k)"
  "k < length (closures s) \<Longrightarrow> canplayArmed (closures (settle k' s) ! k) = canplayArmed (closures s ! k)"
  "k < length (closures s) \<Longrightarrow> errorArmed (closures (settle k' s) ! k) = errorArmed (closures s ! k)"
  "k < length (closures s) \<Longrightarrow> timerArmed (closures (settle k' s) ! k) = timerArmed (closures s ! k)"
  by (simp_all add: settle_def nth_modify split: option.splits)

lemma begin_playback_fields [simp]:
  "isPlaying (begin_playback k s) = isPlaying s"
  "currentSound (begin_playback k s) = currentSound s"
  "isLoading (begin_playback k s) = isLoading s"
  "volume (begin_playback k s) = volume s"
  "audioRef (begin_playback k s) = audioRef s"
  "volumeRef (begin_playback k s) = volumeRef s"
  "playIdRef (begin_playback k s) = playIdRef s"
  "pendingAudioRef (begin_playback k s) = pendingAudioRef s"
  "loadTimeoutRef (begin_playback k s) = loadTimeoutRef s"
  "closures (begin_playback k s) = closures s"
  "localStorage (begin_playback k s) = localStorage s"
  "console (begin_playback k s) = console s"
  by (simp_all add: begin_playback_def)

lemma begin_playback_audios [simp]:
  "length (audios (begin_playback k s)) = length (audios s)"
  "i < length (audios s) \<Longrightarrow>
   playing (audios (begin_playback k s) ! i) = (playing (audios s ! i) \<or> i = audio (closures s ! k))"
  by (auto simp add: begin_playback_def nth_modify)

lemma stopSound_fields:
  "playIdRef (stopSound s) = playIdRef s + 1"
  "audioRef (stopSound s) = None"
  "pendingAudioRef (stopSound s) = None"
  "loadTimeoutRef (stopSound s) = None"
  "isPlaying (stopSound s) = False"
  "currentSound (stopSound s) = None"
  "isLoading (stopSound s) = False"
  "volume (stopSound s) = volume s"
  "volumeRef (stopSound s) = volumeRef s"
  "localStorage (stopSound s) = localStorage s"
  "console (stopSound s) = console s"
  "length (audios (stopSound s)) = length (audios s)"
  "length (closures (stopSound s)) = length (closures s)"
  by (simp_all add: stopSound_def Let_def)

lemma stopSound_playing:
  "i < length (audios s) \<Longrightarrow>
   playing (audios (stopSound s) ! i) =
     (playing (audios s ! i) \<and> audioRef s \<noteq> Some i \<and> pendingAudioRef s \<noteq> Some i)"
  by (auto simp add: stopSound_def Let_def)

lemma stopSound_closure:
  "k < length (closures s) \<Longrightarrow> thisPlayId (closures (stopSound s) ! k) = thisPlayId (closures s ! k)"
  "k < length (closures s) \<Longrightarrow> sound (closures (stopSound s) ! k) = sound (closures s ! k)"
  "k < length (closures s) \<Longrightarrow> audio (closures (stopSound s) ! k) = audio (closures s ! k)"
  "k < length (closures s) \<Longrightarrow> started (closures (stopSound s) ! k) = started (closures s ! k)"
  by (simp_all add: stopSound_def Let_def)

lemma playSound_fields:
  "playIdRef (playSound sd s) = playIdRef s + 1"
  "audioRef (playSound sd s) = None"
  "isPlaying (playSound sd s) = isPlaying s"
  "currentSound (playSound sd s) = currentSound s"
  "volume (playSound sd s) = volume s"
  "volumeRef (playSound sd s) = volumeRef s"
  "localStorage (playSound sd s) = localStorage s"
  "length (audios (playSound sd s)) = Suc (length (audios s))"
  by (simp_all add: playSound_def Let_def split: option.splits)

lemma playSound_playing:
  "i < length (audios s) \<Longrightarrow>
   playing (audios (playSound sd s) ! i) =
     (playing (audios s ! i) \<and> audioRef s \<noteq> Some i \<and> pendingAudioRef s \<noteq> Some i)"
  "playing (audios (playSound sd s) ! length (audios s)) = False"
  by (auto simp add: playSound_def Let_def nth_modify nth_append new_Audio_def
      split: option.splits)

lemma playSound_closure:
  "k < length (closures s) \<Longrightarrow> thisPlayId (closures (playSound sd s) ! k) = thisPlayId (closures s ! k)"
  "k < length (closures s) \<Longrightarrow> sound (closures (playSound sd s) ! k) = sound (closures s ! k)"
  "k < length (closures s) \<Longrightarrow> audio (closures (playSound sd s) ! k) = audio (closures s ! k)"
  "k < length (closures s) \<Longrightarrow> started (closures (playSound sd s) ! k) = started (closures s ! k)"
  by (simp_all add: playSound_def Let_def nth_modify nth_append split: option.splits)

lemma playSound_accepted:
  assumes "volume_setter (volumeRef s) = None"
  shows
  "isLoading (playSound sd s) = True"
  "pendingAudioRef (playSound sd s) = Some (length (audios s))"
  "loadTimeoutRef (playSound sd s) = Some (length (closures s))"
  "console (playSound sd s) = console s"
  "length (closures (playSound sd s)) = Suc (length (closures s))"
  "thisPlayId (closures (playSound sd s) ! length (closures s)) = playIdRef s + 1"
  "sound (closures (playSound sd s) ! length (closures s)) = sd"
  "audio (closures (playSound sd s) ! length (closures s)) = length (audios s)"
  "started (closures (playSound sd s) ! length (closures s)) = False"
  "canplayArmed (closures (playSound sd s) ! length (closures s)) = True"
  "errorArmed (closures (playSound sd s) ! length (closures s)) = True"
  "timerArmed (closures (playSound sd s) ! length (closures s)) = True"
  "src (audios (playSound sd s) ! length (audios s)) = audioUrl sd"
  "loop (audios (playSound sd s) ! length (audios s)) = True"
  "audio_volume (audios (playSound sd s) ! length (audios s)) = volumeRef s"
  using assms
  by (simp_all add: playSound_def Let_def nth_modify nth_append new_Audio_def)

lemma playSound_accepted_plays:
  assumes "volume_setter (volumeRef s) = None"
  shows "plays (closures (playSound sd s) ! length (closures s)) = 1"
  using assms
  by (simp add: playSound_def Let_def nth_modify nth_append startPlayback_def)

lemma playSound_thrown:
  assumes "volume_setter (volumeRef s) = Some e"
  shows
  "isLoading (playSound sd s) = False"
  "pendingAudioRef (playSound sd s) = None"
  "loadTimeoutRef (playSound sd s) = None"
  "console (playSound sd s) = console s @ [[''Error setting up ambient sound:'', exn_name e]]"
  "length (closures (playSound sd s)) = length (closures s)"
  using assms
  by (simp_all add: playSound_def Let_def)

lemma fire_CanPlay:
  "isPlaying (fire ts (CanPlay k) s) = isPlaying s"
  "currentSound (fire ts (CanPlay k) s) = currentSound s"
  "isLoading (fire ts (CanPlay k) s) = isLoading s"
  "volume (fire ts (CanPlay k) s) = volume s"
  "audioRef (fire ts (CanPlay k) s) = audioRef s"
  "volumeRef (fire ts (CanPlay k) s) = volumeRef s"
  "playIdRef (fire ts (CanPlay k) s) = playIdRef s"
  "pendingAudioRef (fire ts (CanPlay k) s) = pendingAudioRef s"
  "loadTimeoutRef (fire ts (CanPlay k) s) = loadTimeoutRef s"
  "audios (fire ts (CanPlay k) s) = audios s"
  "localStorage (fire ts (CanPlay k) s) = localStorage s"
  "console (fire ts (CanPlay k) s) = console s"
  "length (closures (fire ts (CanPlay k) s)) = length (closures s)"
  "j < length (closures s) \<Longrightarrow> thisPlayId (closures (fire ts (CanPlay k) s) ! j) = thisPlayId (closures s ! j)"
  "j < length (closures s) \<Longrightarrow> sound (closures (fire ts (CanPlay k) s) ! j) = sound (closures s ! j)"
  "j < length (closures s) \<Longrightarrow> audio (closures (fire ts (CanPlay k) s) ! j) = audio (closures s ! j)"
  "j < length (closures s) \<Longrightarrow> started (closures (fire ts (CanPlay k) s) ! j) = started (closures s ! j)"
  by (simp_all add: nth_modify)

lemma fire_Timeout:
  "isPlaying (fire ts (Timeout k) s) = isPlaying s"
  "currentSound (fire ts (Timeout k) s) = currentSound s"
  "isLoading (fire ts (Timeout k) s) = isLoading s"
  "volume (fire ts (Timeout k) s) = volume s"
  "audioRef (fire ts (Timeout k) s) = audioRef s"
  "volumeRef (fire ts (Timeout k) s) = volumeRef s"
  "playIdRef (fire ts (Timeout k) s) = playIdRef s"
  "pendingAudioRef (fire ts (Timeout k) s) = pendingAudioRef s"
  "loadTimeoutRef (fire ts (Timeout k) s) = loadTimeoutRef s"
  "audios (fire ts (Timeout k) s) = audios s"
  "localStorage (fire ts (Timeout k) s) = localStorage s"
  "console (fire ts (Timeout k) s) = console s"
  "length (closures (fire ts (Timeout k) s)) = length (closures s)"
  "j < length (closures s) \<Longrightarrow> thisPlayId (closures (fire ts (Timeout k) s) ! j) = thisPlayId (closures s ! j)"
  "j < length (closures s) \<Longrightarrow> sound (closures (fire ts (Timeout k) s) ! j) = sound (closures s ! j)"
  "j < length (closures s) \<Longrightarrow> audio (closures (fire ts (Timeout k) s) ! j) = audio (closures s ! j)"
  "j < length (closures s) \<Longrightarrow> started (closures (fire ts (Timeout k) s) ! j) = started (closures s ! j)"
  by (simp_all add: nth_modify)

lemma fire_PlayRejected:
  "isPlaying (fire ts (PlayRejected k) s) = isPlaying s"
  "currentSound (fire ts (PlayRejected k) s) = currentSound s"
  "isLoading (fire ts (PlayRejected k) s) = isLoading s"
  "volume (fire ts (PlayRejected k) s) = volume s"
  "audioRef (fire ts (PlayRejected k) s) = audioRef s"
  "volumeRef (fire ts (PlayRejected k) s) = volumeRef s"
  "playIdRef (fire ts (PlayRejected k) s) = playIdRef s"
  "pendingAudioRef (fire ts (PlayRejected k) s) = pendingAudioRef s"
  "loadTimeoutRef (fire ts (PlayRejected k) s) = loadTimeoutRef s"
  "audios (fire ts (PlayRejected k) s) = audios s"
  "localStorage (fire ts (PlayRejected k) s) = localStorage s"
  "console (fire ts (PlayRejected k) s) = console s"
  "length (closures (fire ts (PlayRejected k) s)) = length (closures s)"
  "j < length (closures s) \<Longrightarrow> thisPlayId (closures (fire ts (PlayRejected k) s) ! j) = thisPlayId (closures s ! j)"
  "j < length (closures s) \<Longrightarrow> sound (closures (fire ts (PlayRejected k) s) ! j) = sound (closures s ! j)"
  "j < length (closures s) \<Longrightarrow> audio (closures (fire ts (PlayRejected k) s) ! j) = audio (closures s ! j)"
  "j < length (closures s) \<Longrightarrow> started (closures (fire ts (PlayRejected k) s) ! j) = started (closures s ! j)"
  by simp_all

lemma fire_LoadError:
  "isPlaying (fire ts (LoadError k) s) = isPlaying s"
  "currentSound (fire ts (LoadError k) s) = currentSound s"
  "volume (fire ts (LoadError k) s) = volume s"
  "audioRef (fire ts (LoadError k) s) = audioRef s"
  "volumeRef (fire ts (LoadError k) s) = volumeRef s"
  "playIdRef (fire ts (LoadError k) s) = playIdRef s"
  "pendingAudioRef (fire ts (LoadError k) s) = pendingAudioRef s"
  "loadTimeoutRef (fire ts (LoadError k) s) = loadTimeoutRef s"
  "audios (fire ts (LoadError k) s) = audios s"
  "localStorage (fire ts (LoadError k) s) = localStorage s"
  "length (closures (fire ts (LoadError k) s)) = length (closures s)"
  "j < length (closures s) \<Longrightarrow> thisPlayId (closures (fire ts (LoadError k) s) ! j) = thisPlayId (closures s ! j)"
  "j < length (closures s) \<Longrightarrow> sound (closures (fire ts (LoadError k) s) ! j) = sound (closures s ! j)"
  "j < length (closures s) \<Longrightarrow> audio (closures (fire ts (LoadError k) s) ! j) = audio (closures s ! j)"
  "j < length (closures s) \<Longrightarrow> started (closures (fire ts (LoadError k) s) ! j) = started (closures s ! j)"
  by (simp_all add: handleError_def Let_def nth_modify)

lemma fire_LoadError_live:
  assumes "k < length (closures s)" "thisPlayId (closures s ! k) = playIdRef s"
  shows "isLoading (fire ts (LoadError k) s) = False"
    "console (fire ts (LoadError k) s) = console s @ [[''Error loading sound:'', audioUrl (sound (closures s ! k))]]"
  using assms by (simp_all add: handleError_def Let_def nth_modify)

lemma fire_LoadError_stale:
  assumes "k < length (closures s)" "thisPlayId (closures s ! k) \<noteq> playIdRef s"
  shows "isLoading (fire ts (LoadError k) s) = isLoading s" "console (fire ts (LoadError k) s) = console s"
  using assms by (simp_all add: handleError_def Let_def nth_modify)

lemma fire_PlayResolved:
  "volume (fire ts (PlayResolved k) s) = volume s"
  "volumeRef (fire ts (PlayResolved k) s) = volumeRef s"
  "playIdRef (fire ts (PlayResolved k) s) = playIdRef s"
  "localStorage (fire ts (PlayResolved k) s) = localStorage s"
  "console (fire ts (PlayResolved k) s) = console s"
  "length (closures (fire ts (PlayResolved k) s)) = length (closures s)"
  "length (audios (fire ts (PlayResolved k) s)) = length (audios s)"
  "j < length (closures s) \<Longrightarrow> thisPlayId (closures (fire ts (PlayResolved k) s) ! j) = thisPlayId (closures s ! j)"
  "j < length (closures s) \<Longrightarrow> sound (closures (fire ts (PlayResolved k) s) ! j) = sound (closures s ! j)"
  "j < length (closures s) \<Longrightarrow> audio (closures (fire ts (PlayResolved k) s) ! j) = audio (closures s ! j)"
  by (simp_all add: play_then_def Let_def nth_modify)

lemma fire_PlayResolved_stale:
  assumes "k < length (closures s)" "thisPlayId (closures s ! k) \<noteq> playIdRef s"
  shows
  "isPlaying (fire ts (PlayResolved k) s) = isPlaying s"
  "currentSound (fire ts (PlayResolved k) s) = currentSound s"
  "isLoading (fire ts (PlayResolved k) s) = isLoading s"
  "volume (fire ts (PlayResolved k) s) = volume s"
  "audioRef (fire ts (PlayResolved k) s) = audioRef s"
  "volumeRef (fire ts (PlayResolved k) s) = volumeRef s"
  "playIdRef (fire ts (PlayResolved k) s) = playIdRef s"
  "pendingAudioRef (fire ts (PlayResolved k) s) = pendingAudioRef s"
  "loadTimeoutRef (fire ts (PlayResolved k) s) = loadTimeoutRef s"
  "localStorage (fire ts (PlayResolved k) s) = localStorage s"
  "console (fire ts (PlayResolved k) s) = console s"
  "j < length (closures s) \<Longrightarrow> started (closures (fire ts (PlayResolved k) s) ! j) = started (closures s ! j)"
  "i < length (audios s) \<Longrightarrow>
     playing (audios (fire ts (PlayResolved k) s) ! i) = (playing (audios s ! i) \<and> i \<noteq> audio (closures s ! k))"
  using assms by (auto simp add: play_then_def Let_def nth_modify settle_def begin_playback_def)

lemma fire_PlayResolved_live:
  assumes "k < length (closures s)" "thisPlayId (closures s ! k) = playIdRef s"
  shows
  "isPlaying (fire ts (PlayResolved k) s) = True"
  "currentSound (fire ts (PlayResolved k) s) = Some (sound (closures s ! k))"
  "isLoading (fire ts (PlayResolved k) s) = False"
  "audioRef (fire ts (PlayResolved k) s) = Some (audio (closures s ! k))"
  "pendingAudioRef (fire ts (PlayResolved k) s) = None"
  "loadTimeoutRef (fire ts (PlayResolved k) s) = None"
  "j < length (closures s) \<Longrightarrow>
     started (closures (fire ts (PlayResolved k) s) ! j) = (started (closures s ! j) \<or> j = k)"
  "i < length (audios s) \<Longrightarrow>
     playing (audios (fire ts (PlayResolved k) s) ! i) = (playing (audios s ! i) \<or> i = audio (closures s ! k))"
  using assms by (auto simp add: play_then_def Let_def nth_modify settle_def begin_playback_def)

lemma changeVolume_fields:
  "isPlaying (fst (changeVolume ts v s)) = isPlaying s"
  "currentSound (fst (changeVolume ts v s)) = currentSound s"
  "isLoading (fst (changeVolume ts v s)) = isLoading s"
  "audioRef (fst (changeVolume ts v s)) = audioRef s"
  "playIdRef (fst (changeVolume ts v s)) = playIdRef s"
  "pendingAudioRef (fst (changeVolume ts v s)) = pendingAudioRef s"
  "loadTimeoutRef (fst (changeVolume ts v s)) = loadTimeoutRef s"
  "closures (fst (changeVolume ts v s)) = closures s"
  "console (fst (changeVolume ts v s)) = console s"
  "length (audios (fst (changeVolume ts v s))) = length (audios s)"
  "i < length (audios s) \<Longrightarrow> playing (audios (fst (changeVolume ts v s)) ! i) = playing (audios s ! i)"
  by (simp_all add: changeVolume_def Let_def nth_modify split: option.splits)

subsection \<open>The invariants hold in every reachable state\<close>

lemmas inv_defs = inv_def inv_closures_def inv_playing_def inv_live_def inv_active_def

lemma inv_mount: "inv (useAmbientSounds parse ls)"
  by (simp add: inv_defs useAmbientSounds_def)

lemma inv_changeVolume: "inv s \<Longrightarrow> inv (fst (changeVolume ts v s))"
  unfolding inv_defs
  by (simp add: changeVolume_fields cong: conj_cong)

lemma inv_CanPlay: "inv s \<Longrightarrow> inv (fire ts (CanPlay k) s)"
  unfolding inv_defs
  by (simp add: fire_CanPlay del: fire.simps cong: conj_cong)

lemma inv_Timeout: "inv s \<Longrightarrow> inv (fire ts (Timeout k) s)"
  unfolding inv_defs
  by (simp add: fire_Timeout del: fire.simps cong: conj_cong)

lemma inv_PlayRejected: "inv s \<Longrightarrow> inv (fire ts (PlayRejected k) s)"
  unfolding inv_defs
  by (simp add: fire_PlayRejected del: fire.simps cong: conj_cong)

lemma inv_LoadError:
  assumes "inv s" "k < length (closures s)"
  shows "inv (fire ts (LoadError k) s)"
proof (cases "thisPlayId (closures s ! k) = playIdRef s")
  case True
  with assms show ?thesis
    unfolding inv_defs
    by (simp add: fire_LoadError fire_LoadError_live del: fire.simps cong: conj_cong)
next
  case False
  with assms show ?thesis
    unfolding inv_defs
    by (simp add: fire_LoadError fire_LoadError_stale del: fire.simps cong: conj_cong)
qed

lemma inv_PlayResolved_stale:
  assumes "inv s" "k < length (closures s)" "thisPlayId (closures s ! k) \<noteq> playIdRef s"
  shows "inv (fire ts (PlayResolved k) s)"
proof -
  note fs = fire_PlayResolved fire_PlayResolved_stale [OF assms(2,3)]
  from assms(1) have c: "inv_closures s" and p: "inv_playing s" and l: "inv_live s"
    and a: "inv_active s"
    by (simp_all add: inv_def)
  have "inv_closures (fire ts (PlayResolved k) s)"
    using c unfolding inv_closures_def by (simp add: fs del: fire.simps)
  moreover have "inv_playing (fire ts (PlayResolved k) s)"
    using p unfolding inv_playing_def by (simp add: fs del: fire.simps)
  moreover have "inv_active (fire ts (PlayResolved k) s)"
    using a unfolding inv_active_def by (simp add: fs del: fire.simps cong: conj_cong)
  moreover have "inv_live (fire ts (PlayResolved k) s)"
    unfolding inv_live_def
  proof (intro allI impI)
    fix j
    assume j: "j < length (closures (fire ts (PlayResolved k) s))"
      and sl: "started (closures (fire ts (PlayResolved k) s) ! j) \<and>
        thisPlayId (closures (fire ts (PlayResolved k) s) ! j) = playIdRef (fire ts (PlayResolved k) s)"
    from j have j': "j < length (closures s)" by (simp add: fs del: fire.simps)
    from sl j' have sl': "started (closures s ! j) \<and> thisPlayId (closures s ! j) = playIdRef s"
      by (simp add: fs del: fire.simps)
    with assms(3) have "j \<noteq> k" by auto
    with c j' assms(2) have ne: "audio (closures s ! j) \<noteq> audio (closures s ! k)"
      unfolding inv_closures_def by blast
    from c j' have lt: "audio (closures s ! j) < length (audios s)"
      unfolding inv_closures_def by blast
    from l j' sl' have
      "audioRef s = Some (audio (closures s ! j)) \<and> pendingAudioRef s = None \<and>
       loadTimeoutRef s = None \<and> currentSound s = Some (sound (closures s ! j)) \<and>
       isPlaying s \<and> \<not> isLoading s \<and> playing (audios s ! audio (closures s ! j))"
      unfolding inv_live_def by blast
    with j' ne lt show
      "audioRef (fire ts (PlayResolved k) s) = Some (audio (closures (fire ts (PlayResolved k) s) ! j)) \<and>
       pendingAudioRef (fire ts (PlayResolved k) s) = None \<and>
       loadTimeoutRef (fire ts (PlayResolved k) s) = None \<and>
       currentSound (fire ts (PlayResolved k) s) = Some (sound (closures (fire ts (PlayResolved k) s) ! j)) \<and>
       isPlaying (fire ts (PlayResolved k) s) \<and> \<not> isLoading (fire ts (PlayResolved k) s) \<and>
       playing (audios (fire ts (PlayResolved k) s) ! audio (closures (fire ts (PlayResolved k) s) ! j))"
      by (simp add: fs del: fire.simps)
  qed
  ultimately show ?thesis by (simp add: inv_def)
qed

lemma inv_PlayResolved_live:
  assumes "inv s" "k < length (closures s)" "thisPlayId (closures s ! k) = playIdRef s"
  shows "inv (fire ts (PlayResolved k) s)"
proof -
  note fs = fire_PlayResolved fire_PlayResolved_live [OF assms(2,3)]
  from assms(1) have c: "inv_closures s" and p: "inv_playing s" and l: "inv_live s"
    and a: "inv_active s"
    by (simp_all add: inv_def)
  have uniq: "j = k" if "j < length (closures s)" "thisPlayId (closures s ! j) = playIdRef s" for j
    using c that assms(2,3) unfolding inv_closures_def by metis
  have lt: "audio (closures s ! k) < length (audios s)"
    using c assms(2) unfolding inv_closures_def by blast
  have "inv_closures (fire ts (PlayResolved k) s)"
    using c unfolding inv_closures_def by (simp add: fs del: fire.simps)
  moreover have "inv_playing (fire ts (PlayResolved k) s)"
    unfolding inv_playing_def
  proof (intro allI impI)
    fix i assume i: "i < length (audios (fire ts (PlayResolved k) s))"
      and pl: "playing (audios (fire ts (PlayResolved k) s) ! i)"
    from i have i': "i < length (audios s)" by (simp add: fs del: fire.simps)
    from pl i' have "playing (audios s ! i) \<or> i = audio (closures s ! k)"
      by (simp add: fs del: fire.simps)
    moreover have "i = audio (closures s ! k)" if "playing (audios s ! i)"
    proof -
      from p i' that have "audioRef s = Some i" unfolding inv_playing_def by blast
      with a obtain j where "j < length (closures s)" "thisPlayId (closures s ! j) = playIdRef s"
        "audio (closures s ! j) = i"
        unfolding inv_active_def by blast
      with uniq show ?thesis by blast
    qed
    ultimately show "audioRef (fire ts (PlayResolved k) s) = Some i"
      by (auto simp add: fs simp del: fire.simps)
  qed
  moreover have "inv_active (fire ts (PlayResolved k) s)"
    unfolding inv_active_def using assms(2,3)
    by (auto simp add: fs simp del: fire.simps cong: conj_cong)
  moreover have "inv_live (fire ts (PlayResolved k) s)"
    unfolding inv_live_def
  proof (intro allI impI)
    fix j
    assume j: "j < length (closures (fire ts (PlayResolved k) s))"
      and sl: "started (closures (fire ts (PlayResolved k) s) ! j) \<and>
        thisPlayId (closures (fire ts (PlayResolved k) s) ! j) = playIdRef (fire ts (PlayResolved k) s)"
    from j have j': "j < length (closures s)" by (simp add: fs del: fire.simps)
    from sl j' have "thisPlayId (closures s ! j) = playIdRef s"
      by (simp add: fs del: fire.simps)
    with uniq j' have "j = k" by blast
    with assms(2) lt show
      "audioRef (fire ts (PlayResolved k) s) = Some (audio (closures (fire ts (PlayResolved k) s) ! j)) \<and>
       pendingAudioRef (fire ts (PlayResolved k) s) = None \<and>
       loadTimeoutRef (fire ts (PlayResolved k) s) = None \<and>
       currentSound (fire ts (PlayResolved k) s) = Some (sound (closures (fire ts (PlayResolved k) s) ! j)) \<and>
       isPlaying (fire ts (PlayResolved k) s) \<and> \<not> isLoading (fire ts (PlayResolved k) s) \<and>
       playing (audios (fire ts (PlayResolved k) s) ! audio (closures (fire ts (PlayResolved k) s) ! j))"
      by (simp add: fs del: fire.simps)
  qed
  ultimately show ?thesis by (simp add: inv_def)
qed

lemma inv_stopSound:
  assumes "inv s"
  shows "inv (stopSound s)"
proof -
  note fs = stopSound_fields stopSound_playing stopSound_closure
  from assms have c: "inv_closures s" and p: "inv_playing s"
    by (simp_all add: inv_def)
  have bound: "thisPlayId (closures s ! k) < Suc (playIdRef s)" if "k < length (closures s)" for k
    using c that unfolding inv_closures_def by (simp add: less_Suc_eq_le)
  have "inv_closures (stopSound s)"
    using c bound unfolding inv_closures_def by (simp add: fs less_imp_le)
  moreover have "inv_playing (stopSound s)"
    using p unfolding inv_playing_def by (simp add: fs)
  moreover have "inv_live (stopSound s)"
    using bound unfolding inv_live_def by (simp add: fs) (metis less_irrefl)
  moreover have "inv_active (stopSound s)"
    unfolding inv_active_def by (simp add: fs)
  ultimately show ?thesis by (simp add: inv_def)
qed

lemma inv_playSound:
  assumes "inv s"
  shows "inv (playSound sd s)"
proof -
  note fs = playSound_fields playSound_playing playSound_closure
  from assms have c: "inv_closures s" and p: "inv_playing s" and a: "inv_active s"
    by (simp_all add: inv_def)
  have bound: "thisPlayId (closures s ! k) < Suc (playIdRef s)" if "k < length (closures s)" for k
    using c that unfolding inv_closures_def by (simp add: less_Suc_eq_le)
  have albound: "audio (closures s ! k) < length (audios s)" if "k < length (closures s)" for k
    using c that unfolding inv_closures_def by simp
  have quiet: "\<not> playing (audios (playSound sd s) ! i)" if "i < Suc (length (audios s))" for i
  proof (cases "i < length (audios s)")
    case True
    with p show ?thesis unfolding inv_playing_def by (auto simp add: fs)
  next
    case False
    with that have "i = length (audios s)" by simp
    then show ?thesis by (simp add: fs)
  qed
  have pl: "inv_playing (playSound sd s)"
    using quiet unfolding inv_playing_def by (simp add: fs)
  show ?thesis
  proof (cases "volume_setter (volumeRef s)")
    case None
    note acc = playSound_accepted [OF None]
    have cl1: "\<forall>k<length (closures (playSound sd s)).
        thisPlayId (closures (playSound sd s) ! k) \<le> playIdRef (playSound sd s) \<and>
        audio (closures (playSound sd s) ! k) < length (audios (playSound sd s))"
    proof (intro allI impI)
      fix k assume "k < length (closures (playSound sd s))"
      then have "k < length (closures s) \<or> k = length (closures s)"
        by (auto simp add: acc)
      then show "thisPlayId (closures (playSound sd s) ! k) \<le> playIdRef (playSound sd s) \<and>
          audio (closures (playSound sd s) ! k) < length (audios (playSound sd s))"
        using bound [of k] albound [of k] by (auto simp add: fs acc less_imp_le)
    qed
    have cl2: "\<forall>k<length (closures (playSound sd s)). \<forall>j<length (closures (playSound sd s)).
        thisPlayId (closures (playSound sd s) ! k) = thisPlayId (closures (playSound sd s) ! j) \<or>
        audio (closures (playSound sd s) ! k) = audio (closures (playSound sd s) ! j) \<longrightarrow> k = j"
    proof (intro allI impI)
      fix k j
      assume "k < length (closures (playSound sd s))" "j < length (closures (playSound sd s))"
        and eq: "thisPlayId (closures (playSound sd s) ! k) = thisPlayId (closures (playSound sd s) ! j) \<or>
          audio (closures (playSound sd s) ! k) = audio (closures (playSound sd s) ! j)"
      then have k: "k < length (closures s) \<or> k = length (closures s)"
        and j: "j < length (closures s) \<or> j = length (closures s)"
        by (auto simp add: acc)
      from c have old: "\<And>k j. k < length (closures s) \<Longrightarrow> j < length (closures s) \<Longrightarrow>
          thisPlayId (closures s ! k) = thisPlayId (closures s ! j) \<or>
          audio (closures s ! k) = audio (closures s ! j) \<Longrightarrow> k = j"
        unfolding inv_closures_def by blast
      from k j eq show "k = j"
        using bound [of k] bound [of j] albound [of k] albound [of j] old [of k j]
        by (auto simp add: fs acc)
    qed
    from cl1 cl2 have cl: "inv_closures (playSound sd s)"
      unfolding inv_closures_def by blast
    have li: "inv_live (playSound sd s)"
      unfolding inv_live_def
    proof (intro allI impI)
      fix k assume "k < length (closures (playSound sd s))"
        and sl: "started (closures (playSound sd s) ! k) \<and>
          thisPlayId (closures (playSound sd s) ! k) = playIdRef (playSound sd s)"
      then have "k < length (closures s) \<or> k = length (closures s)"
        by (auto simp add: acc)
      with sl have False
        using bound [of k] by (auto simp add: fs acc)
      then show "audioRef (playSound sd s) = Some (audio (closures (playSound sd s) ! k)) \<and>
          pendingAudioRef (playSound sd s) = None \<and>
          loadTimeoutRef (playSound sd s) = None \<and>
          currentSound (playSound sd s) = Some (sound (closures (playSound sd s) ! k)) \<and>
          isPlaying (playSound sd s) \<and> \<not> isLoading (playSound sd s) \<and>
          playing (audios (playSound sd s) ! audio (closures (playSound sd s) ! k))" ..
    qed
    have ac: "inv_active (playSound sd s)"
      unfolding inv_active_def
    proof (intro conjI allI impI)
      fix x assume "audioRef (playSound sd s) = Some x"
      then show "\<exists>k<length (closures (playSound sd s)).
          started (closures (playSound sd s) ! k) \<and>
          thisPlayId (closures (playSound sd s) ! k) = playIdRef (playSound sd s) \<and>
          audio (closures (playSound sd s) ! k) = x"
        by (simp add: fs)
    next
      assume "isPlaying (playSound sd s)"
      then have "isPlaying s" by (simp add: fs)
      with a obtain k where k: "k < length (closures s)" "started (closures s ! k)"
        "currentSound s = Some (sound (closures s ! k))"
        unfolding inv_active_def by blast
      then have "k < length (closures (playSound sd s)) \<and> started (closures (playSound sd s) ! k) \<and>
          currentSound (playSound sd s) = Some (sound (closures (playSound sd s) ! k))"
        by (simp add: fs acc)
      then show "\<exists>k<length (closures (playSound sd s)).
          started (closures (playSound sd s) ! k) \<and>
          currentSound (playSound sd s) = Some (sound (closures (playSound sd s) ! k))"
        by blast
    next
      assume "\<not> isPlaying (playSound sd s)"
      with a show "currentSound (playSound sd s) = None"
        unfolding inv_active_def by (simp add: fs)
    qed
    from cl pl li ac show ?thesis by (simp add: inv_def)
  next
    case (Some e)
    note thr = playSound_thrown [OF Some]
    have cl: "inv_closures (playSound sd s)"
      using c bound albound unfolding inv_closures_def
      by (simp add: fs thr less_imp_le less_SucI)
    have li: "inv_live (playSound sd s)"
      using bound unfolding inv_live_def by (simp add: fs thr) (metis less_irrefl)
    have ac: "inv_active (playSound sd s)"
      using a unfolding inv_active_def by (simp add: fs thr cong: conj_cong)
    from cl pl li ac show ?thesis by (simp add: inv_def)
  qed
qed

lemma inv_toggleSound: "inv s \<Longrightarrow> inv (toggleSound sd s)"
  by (simp add: toggleSound_def inv_stopSound inv_playSound)

lemma inv_step: "inv s \<Longrightarrow> inv (step ts e s)"
proof (cases e)
  case (PlayResolved k)
  assume "inv s"
  then show ?thesis
    using inv_PlayResolved_live [of s k ts] inv_PlayResolved_stale [of s k ts] PlayResolved
    by (cases "thisPlayId (closures s ! k) = playIdRef s")
      (auto simp add: step_def simp del: fire.simps)
next
  case (LoadError k)
  assume "inv s"
  then show ?thesis
    using inv_LoadError [of s k ts] LoadError
    by (auto simp add: step_def simp del: fire.simps)
next
  case (CanPlay k)
  assume "inv s"
  then show ?thesis
    using inv_CanPlay [of s ts k] CanPlay by (simp add: step_def del: fire.simps)
next
  case (Timeout k)
  assume "inv s"
  then show ?thesis
    using inv_Timeout [of s ts k] Timeout by (simp add: step_def del: fire.simps)
next
  case (PlayRejected k)
  assume "inv s"
  then show ?thesis
    using inv_PlayRejected [of s ts k] PlayRejected by (simp add: step_def del: fire.simps)
qed (simp_all add: step_def inv_stopSound inv_playSound inv_toggleSound inv_changeVolume)

lemma reachable_inv: "reachable ts s \<Longrightarrow> inv s"
  by (induction rule: reachable.induct) (simp_all add: inv_mount inv_step)

lemma reachable_run: "reachable ts s \<Longrightarrow> reachable ts (run ts es s)"
  by (induction es arbitrary: s) (simp_all add: reachable.after)

lemma run_append: "run ts (es @ fs) s = run ts fs (run ts es s)"
  by (induction es arbitrary: s) simp_all

lemma audible_iff: "i \<in> set (audible s) \<longleftrightarrow> i < length (audios s) \<and> playing (audios s ! i)"
  by (auto simp add: audible_def)

lemma inv_playing_audible:
  assumes "inv_playing s"
  shows "length (audible s) \<le> 1" "set (audible s) \<subseteq> set_option (audioRef s)"
proof -
  show sub: "set (audible s) \<subseteq> set_option (audioRef s)"
    using assms by (auto simp add: audible_iff inv_playing_def)
  have "distinct (audible s)" by (simp add: audible_def)
  then have "length (audible s) = card (set (audible s))"
    by (simp add: distinct_card)
  also have "\<dots> \<le> card (set_option (audioRef s))"
    using sub by (intro card_mono) (cases "audioRef s", simp_all)
  also have "\<dots> \<le> 1" by (cases "audioRef s") simp_all
  finally show "length (audible s) \<le> 1" .
qed

lemma audible_cong:
  assumes "length (audios s') = length (audios s)"
    and "\<And>i. i < length (audios s) \<Longrightarrow> playing (audios s' ! i) = playing (audios s ! i)"
  shows "audible s' = audible s"
  unfolding audible_def using assms by (auto intro: filter_cong)

lemma audible_empty:
  assumes "\<And>i. i < length (audios s) \<Longrightarrow> \<not> playing (audios s ! i)"
  shows "audible s = []"
  unfolding audible_def using assms by (simp add: filter_empty_conv)

lemma stale_not_playing:
  assumes "inv s" "k < length (closures s)" "thisPlayId (closures s ! k) \<noteq> playIdRef s"
  shows "\<not> playing (audios s ! audio (closures s ! k))"
proof
  assume pl: "playing (audios s ! audio (closures s ! k))"
  from assms(1) have c: "inv_closures s" and p: "inv_playing s" and a: "inv_active s"
    by (simp_all add: inv_def)
  from c assms(2) have "audio (closures s ! k) < length (audios s)"
    unfolding inv_closures_def by blast
  with p pl have "audioRef s = Some (audio (closures s ! k))"
    unfolding inv_playing_def by blast
  with a obtain j where j: "j < length (closures s)" "thisPlayId (closures s ! j) = playIdRef s"
    "audio (closures s ! j) = audio (closures s ! k)"
    unfolding inv_active_def by blast
  with c assms(2) have "j = k" unfolding inv_closures_def by blast
  with j assms(3) show False by simp
qed

lemma stale_callback_frame:
  assumes "reachable ts s" and "callback e = Some k" and "k < length (closures s)"
    and "thisPlayId (closures s ! k) \<noteq> playIdRef s"
  shows "observable (step ts e s) = observable s \<and>
         audioRef (step ts e s) = audioRef s \<and>
         pendingAudioRef (step ts e s) = pendingAudioRef s \<and>
         loadTimeoutRef (step ts e s) = loadTimeoutRef s \<and>
         playIdRef (step ts e s) = playIdRef s \<and>
         volume (step ts e s) = volume s \<and>
         console (step ts e s) = console s \<and>
         audible (step ts e s) = audible s \<and>
         length (audible (step ts e s)) \<le> 1"
proof -
  from assms(1) have i: "inv s" by (rule reachable_inv)
  from assms(1) have "inv (step ts e s)" by (rule reachable_inv [OF reachable.after])
  then have one: "length (audible (step ts e s)) \<le> 1"
    using inv_playing_audible(1) [of "step ts e s"] by (simp add: inv_def)
  have rest: "observable (step ts e s) = observable s \<and>
         audioRef (step ts e s) = audioRef s \<and>
         pendingAudioRef (step ts e s) = pendingAudioRef s \<and>
         loadTimeoutRef (step ts e s) = loadTimeoutRef s \<and>
         playIdRef (step ts e s) = playIdRef s \<and>
         volume (step ts e s) = volume s \<and>
         console (step ts e s) = console s \<and>
         audible (step ts e s) = audible s"
  proof (cases "enabled e s")
    case False
    then show ?thesis by (simp add: step_def)
  next
    case True
    then have st: "step ts e s = fire ts e s" by (simp add: step_def)
    from assms(2) consider "e = CanPlay k" | "e = LoadError k" | "e = Timeout k"
      | "e = PlayResolved k" | "e = PlayRejected k"
      by (cases e) (simp_all add: callback_def)
    then show ?thesis
    proof cases
      case 1
      then show ?thesis unfolding st observable_def
        by (auto simp add: fire_CanPlay simp del: fire.simps intro: audible_cong)
    next
      case 2
      with assms(3,4) show ?thesis unfolding st observable_def
        by (auto simp add: fire_LoadError fire_LoadError_stale simp del: fire.simps
            intro: audible_cong)
    next
      case 3
      then show ?thesis unfolding st observable_def
        by (auto simp add: fire_Timeout simp del: fire.simps intro: audible_cong)
    next
      case 4
      note fs = fire_PlayResolved fire_PlayResolved_stale [OF assms(3,4)]
      have "audible (fire ts (PlayResolved k) s) = audible s"
        using stale_not_playing [OF i assms(3,4)]
        by (intro audible_cong) (auto simp add: fs simp del: fire.simps)
      with 4 show ?thesis unfolding st observable_def
        by (simp add: fs del: fire.simps)
    next
      case 5
      then show ?thesis unfolding st observable_def
        by (auto simp add: fire_PlayRejected simp del: fire.simps intro: audible_cong)
    qed
  qed
  with one show ?thesis by simp
qed

lemma release_src:
  "i < length (audios s) \<Longrightarrow>
   src (audios (release a s) ! i) = (if i = a then [] else src (audios s ! i))"
  by (simp add: release_def nth_modify)

lemma stopSound_src:
  "i < length (audios s) \<Longrightarrow>
   src (audios (stopSound s) ! i) =
     (if audioRef s = Some i \<or> pendingAudioRef s = Some i then [] else src (audios s ! i))"
  by (auto simp add: stopSound_def Let_def releasePending_def releaseActive_def release_src
      split: option.splits)

lemma stopSound_twice:
  "stopSound (stopSound s) = (stopSound s)\<lparr>playIdRef := playIdRef s + 2\<rparr>"
  by (simp add: stopSound_def Let_def release_defs split: option.splits)

lemma refs_in_range_step:
  assumes "inv s" "refs_in_range s"
  shows "refs_in_range (step ts e s)"
proof (cases "enabled e s")
  case False
  with assms(2) show ?thesis by (simp add: step_def)
next
  case True
  then have st: "step ts e s = fire ts e s" by (simp add: step_def)
  have "refs_in_range (fire ts e s)"
  proof (cases e)
    case (Play sd)
    show ?thesis unfolding Play refs_in_range_def
      by (cases "volume_setter (volumeRef s)")
        (simp_all add: playSound_fields playSound_accepted playSound_thrown)
  next
    case Stop
    show ?thesis unfolding Stop refs_in_range_def
      by (simp add: stopSound_fields)
  next
    case (Toggle sd)
    show ?thesis unfolding Toggle refs_in_range_def
      by (cases "volume_setter (volumeRef s)")
        (simp_all add: toggleSound_def stopSound_fields playSound_fields playSound_accepted
          playSound_thrown)
  next
    case (ChangeVolume v)
    with assms(2) show ?thesis unfolding refs_in_range_def
      by (simp add: changeVolume_fields)
  next
    case (CanPlay k)
    with assms(2) show ?thesis unfolding refs_in_range_def
      by (simp add: fire_CanPlay del: fire.simps)
  next
    case (LoadError k)
    with assms(2) show ?thesis unfolding refs_in_range_def
      by (simp add: fire_LoadError del: fire.simps)
  next
    case (Timeout k)
    with assms(2) show ?thesis unfolding refs_in_range_def
      by (simp add: fire_Timeout del: fire.simps)
  next
    case (PlayRejected k)
    with assms(2) show ?thesis unfolding refs_in_range_def
      by (simp add: fire_PlayRejected del: fire.simps)
  next
    case (PlayResolved k)
    with True have k: "k < length (closures s)" by simp
    from assms(1) k have lt: "audio (closures s ! k) < length (audios s)"
      by (simp add: inv_def inv_closures_def)
    show ?thesis
    proof (cases "thisPlayId (closures s ! k) = playIdRef s")
      case True
      with lt show ?thesis unfolding PlayResolved refs_in_range_def
        by (simp add: fire_PlayResolved fire_PlayResolved_live [OF k True] del: fire.simps)
    next
      case False
      with assms(2) show ?thesis unfolding PlayResolved refs_in_range_def
        by (simp add: fire_PlayResolved fire_PlayResolved_stale [OF k False] del: fire.simps)
    qed
  qed
  with st show ?thesis by simp
qed

lemma reachable_refs_in_range: "reachable ts s \<Longrightarrow> refs_in_range s"
proof (induction rule: reachable.induct)
  case (mount parse ls)
  show ?case by (simp add: refs_in_range_def useAmbientSounds_def)
next
  case (after s e)
  then show ?case by (simp add: refs_in_range_step reachable_inv)
qed

lemma modify_id: "f (xs ! i) = xs ! i \<Longrightarrow> modify i f xs = xs"
  by (simp add: modify_def)

lemma audible_single:
  assumes "a < length (audios s)" "playing (audios s ! a)"
    and "\<And>i. i < length (audios s) \<Longrightarrow> playing (audios s ! i) \<Longrightarrow> i = a"
  shows "audible s = [a]"
proof -
  have set: "set (audible s) = {a}"
  proof (rule set_eqI)
    fix i
    show "i \<in> set (audible s) \<longleftrightarrow> i \<in> {a}"
      using assms(1,2) assms(3) [of i] by (simp add: audible_iff) blast
  qed
  have "distinct (audible s)" by (simp add: audible_def)
  then have "length (audible s) = card (set (audible s))"
    by (simp add: distinct_card)
  with set have "length (audible s) = 1" by simp
  then obtain x where "audible s = [x]"
    by (cases "audible s") auto
  with set show ?thesis by simp
qed

lemma startPlayback_noop:
  assumes "started (closures s ! k) \<or> thisPlayId (closures s ! k) \<noteq> playIdRef s"
  shows "startPlayback k s = s"
  using assms
proof (elim disjE)
  assume "started (closures s ! k)"
  then show ?thesis by (simp add: startPlayback_def Let_def)
next
  assume "thisPlayId (closures s ! k) \<noteq> playIdRef s"
  then have "playIdRef s \<noteq> thisPlayId (closures s ! k)" by (rule not_sym)
  then show ?thesis by (simp add: startPlayback_def Let_def)
qed

lemma started_live_resolved:
  assumes "inv s" "k < length (closures s)" "thisPlayId (closures s ! k) = playIdRef s"
    and "started (closures s ! k)"
  shows "fire ts (PlayResolved k) s = settle k s"
proof -
  let ?c = "closures s ! k"
  from assms have l: "audioRef s = Some (audio ?c)" "pendingAudioRef s = None"
    "loadTimeoutRef s = None" "currentSound s = Some (sound ?c)" "isPlaying s" "\<not> isLoading s"
    "playing (audios s ! audio ?c)"
    by (simp_all add: inv_def inv_live_def)
  have b: "begin_playback k (settle k s) = settle k s"
    using l(7) assms(2) by (simp add: begin_playback_def settle_def modify_id nth_modify)
  have c: "closures (settle k s) ! k = ?c\<lparr>plays := plays ?c - 1\<rparr>"
    using assms(2) by (simp add: settle_def nth_modify)
  have m: "modify k (\<lambda>c. c\<lparr>started := True\<rparr>) (closures (settle k s)) = closures (settle k s)"
    using assms(4) by (intro modify_id) (simp add: c)
  have "play_then k (settle k s) = settle k s"
    unfolding play_then_def Let_def c m
    using assms(3) l(1-6)
    by (simp add: clearRetry_def)
  with b show ?thesis by simp
qed

lemma toward_fire:
  assumes "toward B b p0 c0 s" and "callback e = Some k" and "k < length (closures s)"
  shows "toward B b p0 c0 (fire ts e s) \<and> playIdRef (fire ts e s) = playIdRef s"
proof -
  from assms(2) consider "e = CanPlay k" | "e = LoadError k" | "e = Timeout k"
    | "e = PlayResolved k" | "e = PlayRejected k"
    by (cases e) (simp_all add: callback_def)
  then show ?thesis
  proof cases
    case 1
    with assms(1) show ?thesis unfolding toward_def
      by (simp add: fire_CanPlay del: fire.simps) blast?
  next
    case 3
    with assms(1) show ?thesis unfolding toward_def
      by (simp add: fire_Timeout del: fire.simps) blast?
  next
    case 5
    with assms(1) show ?thesis unfolding toward_def
      by (simp add: fire_PlayRejected del: fire.simps) blast?
  next
    case 2
    show ?thesis
    proof (cases "thisPlayId (closures s ! k) = playIdRef s")
      case True
      with assms(1,3) 2 show ?thesis unfolding toward_def
        by (simp add: fire_LoadError fire_LoadError_live del: fire.simps) blast?
    next
      case False
      with assms(1,3) 2 show ?thesis unfolding toward_def
        by (simp add: fire_LoadError fire_LoadError_stale del: fire.simps) blast?
    qed
  next
    case 4
    show ?thesis
    proof (cases "thisPlayId (closures s ! k) = playIdRef s")
      case True
      from assms(1,3) True have "sound (closures s ! k) = B" "audio (closures s ! k) = b"
        unfolding toward_def by blast+
      with assms(1) 4 show ?thesis unfolding toward_def
        by (simp add: fire_PlayResolved fire_PlayResolved_live [OF assms(3) True] del: fire.simps) blast?
    next
      case False
      with assms(1) 4 show ?thesis unfolding toward_def
        by (simp add: fire_PlayResolved fire_PlayResolved_stale [OF assms(3) False] del: fire.simps) blast?
    qed
  qed
qed

lemma toward_step:
  assumes "toward B b p0 c0 s" and "callback e \<noteq> None"
  shows "toward B b p0 c0 (step ts e s) \<and> playIdRef (step ts e s) = playIdRef s"
proof (cases "enabled e s")
  case False
  with assms(1) show ?thesis by (simp add: step_def)
next
  case True
  from assms(2) obtain k where k: "callback e = Some k" by blast
  with True have "k < length (closures s)"
    by (cases e) (simp_all add: callback_def)
  from toward_fire [OF assms(1) k this] True show ?thesis
    by (simp add: step_def del: fire.simps)
qed

lemma toward_run:
  assumes "toward B b p0 c0 s" and "host_only es"
  shows "toward B b p0 c0 (run ts es s) \<and> playIdRef (run ts es s) = playIdRef s"
  using assms
proof (induction es arbitrary: s)
  case Nil
  then show ?case by simp
next
  case (Cons e es)
  from Cons.prems(2) have e: "callback e \<noteq> None" and es: "host_only es"
    by (simp_all add: host_only_def)
  from toward_step [OF Cons.prems(1) e]
  have t: "toward B b p0 c0 (step ts e s)" and p: "playIdRef (step ts e s) = playIdRef s"
    by simp_all
  from Cons.IH [OF t es] p show ?case by simp
qed

lemma toward_play_play:
  assumes "inv s0"
  shows "toward B (Suc (length (audios s0))) (isPlaying s0) (currentSound s0)
           (playSound B (playSound A s0))"
proof -
  let ?s1 = "playSound A s0"
  let ?s2 = "playSound B ?s1"
  from assms have i1: "inv ?s1" by (rule inv_playSound)
  have old: "thisPlayId (closures ?s1 ! k) < playIdRef ?s2" if "k < length (closures ?s1)" for k
  proof -
    from i1 that have "thisPlayId (closures ?s1 ! k) \<le> playIdRef ?s1"
      by (simp add: inv_def inv_closures_def)
    then show ?thesis by (simp add: playSound_fields)
  qed
  have live: "sound (closures ?s2 ! k) = B \<and> audio (closures ?s2 ! k) = Suc (length (audios s0))"
    if k: "k < length (closures ?s2)" and l: "thisPlayId (closures ?s2 ! k) = playIdRef ?s2" for k
  proof (cases "volume_setter (volumeRef ?s1)")
    case None
    note acc = playSound_accepted [OF None]
    from k have "k < length (closures ?s1) \<or> k = length (closures ?s1)"
      by (auto simp add: acc)
    then show ?thesis
    proof
      assume a: "k < length (closures ?s1)"
      with l have "thisPlayId (closures ?s1 ! k) = playIdRef ?s2"
        by (simp add: playSound_closure)
      with old [OF a] show ?thesis by simp
    next
      assume "k = length (closures ?s1)"
      then show ?thesis by (simp add: acc playSound_fields)
    qed
  next
    case (Some e)
    note thr = playSound_thrown [OF Some]
    from k have a: "k < length (closures ?s1)" by (simp add: thr)
    with l have "thisPlayId (closures ?s1 ! k) = playIdRef ?s2"
      by (simp add: playSound_closure)
    with old [OF a] show ?thesis by simp
  qed
  show ?thesis
    unfolding toward_def using live by (simp add: playSound_fields)
qed

text \<open>Teardown leaves every closure stale and nothing audible.\<close>

lemma unmount_stopSound:
  "stopSound s = (unmount s)\<lparr>isPlaying := False, currentSound := None, isLoading := False\<rparr>"
  by (simp add: stopSound_def unmount_def Let_def)

lemma unmount_quiet:
  assumes "reachable ts s"
  shows "audible (unmount s) = []"
    and "\<forall>k<length (closures (unmount s)).
           thisPlayId (closures (unmount s) ! k) \<noteq> playIdRef (unmount s)"
    and "audioRef (unmount s) = None" and "pendingAudioRef (unmount s) = None"
proof -
  from assms have i: "inv s" by (rule reachable_inv)
  have a: "audios (stopSound s) = audios (unmount s)" "closures (stopSound s) = closures (unmount s)"
    "playIdRef (stopSound s) = playIdRef (unmount s)"
    by (simp_all add: unmount_stopSound)
  have "audible (stopSound s) = []"
    using i by (intro audible_empty)
      (auto simp add: stopSound_fields stopSound_playing inv_def inv_playing_def)
  with a(1) show "audible (unmount s) = []"
    by (simp add: audible_def)
  have "\<forall>k<length (closures (stopSound s)).
      thisPlayId (closures (stopSound s) ! k) \<noteq> playIdRef (stopSound s)"
    using i by (auto simp add: stopSound_fields stopSound_closure inv_def inv_closures_def)
  with a(2,3) show "\<forall>k<length (closures (unmount s)).
      thisPlayId (closures (unmount s) ! k) \<noteq> playIdRef (unmount s)"
    by simp
  show "audioRef (unmount s) = None" "pendingAudioRef (unmount s) = None"
    by (simp_all add: unmount_def Let_def)
qed

subsection \<open>Volume\<close>

text \<open>
  C10. \<^verbatim>\<open>changeVolume\<close> leaves \<open>isPlaying\<close>, \<open>currentSound\<close>, \<open>isLoading\<close> and the generation
  counter as they were, and with them the resource refs, the timer ref, the closures and
  the console. It writes the volume state, the volume ref and the persisted entry, and
  the volume of the active element when there is one and the value is one its setter
  takes; no element changes in anything but its volume.
\<close>

theorem changeVolume_frame:
  "isPlaying (fst (changeVolume ts v s)) = isPlaying s \<and>
   currentSound (fst (changeVolume ts v s)) = currentSound s \<and>
   isLoading (fst (changeVolume ts v s)) = isLoading s \<and>
   playIdRef (fst (changeVolume ts v s)) = playIdRef s \<and>
   audioRef (fst (changeVolume ts v s)) = audioRef s \<and>
   pendingAudioRef (fst (changeVolume ts v s)) = pendingAudioRef s \<and>
   loadTimeoutRef (fst (changeVolume ts v s)) = loadTimeoutRef s \<and>
   closures (fst (changeVolume ts v s)) = closures s \<and>
   console (fst (changeVolume ts v s)) = console s \<and>
   map (\<lambda>e. e\<lparr>audio_volume := v\<rparr>) (audios (fst (changeVolume ts v s))) =
     map (\<lambda>e. e\<lparr>audio_volume := v\<rparr>) (audios s) \<and>
   volume (fst (changeVolume ts v s)) = v \<and>
   volumeRef (fst (changeVolume ts v s)) = v \<and>
   getItem ''ambientSoundVolume'' (localStorage (fst (changeVolume ts v s))) = Some (ts v) \<and>
   audios (fst (changeVolume ts v s)) =
     (case audioRef s of
        None \<Rightarrow> audios s
      | Some a \<Rightarrow>
          if volume_setter v = None
          then modify a (\<lambda>e. e\<lparr>audio_volume := v\<rparr>) (audios s)
          else audios s) \<and>
   step ts (ChangeVolume v) s = fst (changeVolume ts v s)"
  apply (simp add: changeVolume_def Let_def step_def getItem_def setItem_def split: option.splits)
  apply (auto simp: modify_def map_update nth_list_update intro!: nth_equalityI)
  done

text \<open>
  C8, as the code has it. The initial volume is 0.3 when the key is absent or holds the
  empty string; any other stored string is handed to the parser and the result is taken
  as it comes. The volume ref starts equal to it, and afterwards the volume changes only
  through \<^verbatim>\<open>changeVolume\<close>: storage is not read again.
\<close>

theorem initial_volume:
  "(getItem ''ambientSoundVolume'' ls = None \<longrightarrow>
      volume (useAmbientSounds parse ls) = Num (3 / 10)) \<and>
   (getItem ''ambientSoundVolume'' ls = Some [] \<longrightarrow>
      volume (useAmbientSounds parse ls) = Num (3 / 10)) \<and>
   (\<forall>sv. getItem ''ambientSoundVolume'' ls = Some sv \<and> sv \<noteq> [] \<longrightarrow>
      volume (useAmbientSounds parse ls) = parse sv) \<and>
   volumeRef (useAmbientSounds parse ls) = volume (useAmbientSounds parse ls) \<and>
   volume (step ts e s) = (case e of ChangeVolume v \<Rightarrow> v | _ \<Rightarrow> volume s)"
proof -
  have "volume (step ts e s) = (case e of ChangeVolume v \<Rightarrow> v | _ \<Rightarrow> volume s)"
    by (cases e)
      (simp_all add: step_def playSound_def stopSound_def toggleSound_def changeVolume_def
        startPlayback_def handleError_def play_then_def settle_def begin_playback_def pause_def
        release_defs Let_def split: option.splits)
  then show ?thesis
    by (simp add: useAmbientSounds_def initialVolume_def)
qed

theorem initial_volume_witness:
  "volume (useAmbientSounds parseFloat []) = Num (3 / 10) \<and>
   volume (useAmbientSounds parseFloat [(''ambientSoundVolume'', [])]) = Num (3 / 10) \<and>
   volume (useAmbientSounds parseFloat [(''ambientSoundVolume'', ''0.7'')]) = Num (7 / 10)"
proof -
  have a: "getItem ''ambientSoundVolume'' [] = None"
    by code_simp
  have b: "getItem ''ambientSoundVolume'' [(''ambientSoundVolume'', [])] = Some []"
    by code_simp
  have c: "getItem ''ambientSoundVolume'' [(''ambientSoundVolume'', ''0.7'')] = Some ''0.7'' \<and>
           ''0.7'' \<noteq> []"
    by code_simp
  have d: "parseFloat ''0.7'' = Num (7 / 10)"
    by code_simp
  from initial_volume [of "[]" parseFloat] a
    initial_volume [of "[(''ambientSoundVolume'', [])]" parseFloat] b
    initial_volume [of "[(''ambientSoundVolume'', ''0.7'')]" parseFloat] c d
  show ?thesis by metis
qed

text \<open>
  C8 as stated fails: a stored string that does not parse, here \<^verbatim>\<open>abc\<close>, makes the initial
  volume \<^verbatim>\<open>NaN\<close>, not 0.3.
\<close>

theorem initial_volume_unparsable:
  "parseFloat ''abc'' = NaN \<and>
   volume (useAmbientSounds parseFloat [(''ambientSoundVolume'', ''abc'')]) = NaN \<and>
   NaN \<noteq> Num (3 / 10)"
  by code_simp

text \<open>
  C9. A volume \<open>v\<close> is representable when the host prints it as a non-empty string that
  the host's parser reads back as \<open>v\<close>. For such a volume, mounting the hook on the
  storage that \<^verbatim>\<open>changeVolume\<close> left gives the initial volume \<open>v\<close>, from any state.
\<close>

theorem volume_round_trip:
  "ts v \<noteq> [] \<Longrightarrow> parse (ts v) = v \<Longrightarrow>
   volume (useAmbientSounds parse (localStorage (fst (changeVolume ts v s)))) = v \<and>
   volume (useAmbientSounds parse (localStorage (step ts (ChangeVolume v) s))) = v"
  by (simp add: useAmbientSounds_def initialVolume_def changeVolume_def getItem_def setItem_def
      step_def Let_def split: option.splits)

theorem volume_round_trip_witness:
  "volume (useAmbientSounds parseFloat
     (localStorage (fst (changeVolume (\<lambda>_. ''0.7'') (Num (7 / 10))
        (run (\<lambda>_. ''0.7'') [Play rain, PlayResolved 0] (useAmbientSounds parseFloat [])))))) =
   Num (7 / 10)"
proof -
  have a: "(\<lambda>_. ''0.7'') (Num (7 / 10)) \<noteq> []"
    by simp
  have b: "parseFloat ((\<lambda>_. ''0.7'') (Num (7 / 10))) = Num (7 / 10)"
    by code_simp
  from volume_round_trip [of "\<lambda>_. ''0.7''" "Num (7 / 10)" parseFloat, OF a b]
  show ?thesis by simp
qed

subsection \<open>Toggle\<close>

text \<open>
  C5, as the code has it. \<^verbatim>\<open>toggleSound\<close> inspects the two flags of the UI state: it is
  \<^verbatim>\<open>stopSound\<close>, and the UI observes Idle afterwards, when \<open>isPlaying\<close> holds and the
  current sound has the id of \<open>sd\<close>; in every other state it is \<^verbatim>\<open>playSound\<close>. In a
  reachable state with an active element (the live generation is confirmed) the flags
  are set, to the live sound, and the hook is not loading; with \<open>isPlaying\<close> clear there is
  no active element and no current sound. The flags can hold with no active element, for
  a superseded sound: nothing is audible then, and toggling that sound stops.
\<close>

theorem toggle_dispatch:
  "(isPlaying s \<and> (\<exists>c. currentSound s = Some c \<and> id' c = id' sd) \<longrightarrow>
      toggleSound sd s = stopSound s \<and> observable (toggleSound sd s) = Idle) \<and>
   (\<not> (isPlaying s \<and> (\<exists>c. currentSound s = Some c \<and> id' c = id' sd)) \<longrightarrow>
      toggleSound sd s = playSound sd s) \<and>
   step ts (Toggle sd) s = toggleSound sd s \<and>
   (reachable ts s \<longrightarrow>
      (audioRef s \<noteq> None \<longrightarrow>
         isPlaying s \<and> \<not> isLoading s \<and>
         (\<exists>k<length (closures s).
            started (closures s ! k) \<and> thisPlayId (closures s ! k) = playIdRef s \<and>
            audioRef s = Some (audio (closures s ! k)) \<and>
            currentSound s = Some (sound (closures s ! k)))) \<and>
      (audioRef s = None \<longrightarrow> audible s = []) \<and>
      (\<not> isPlaying s \<longrightarrow> audioRef s = None \<and> currentSound s = None))"
proof -
  have A: "isPlaying s \<and> (\<exists>c. currentSound s = Some c \<and> id' c = id' sd) \<longrightarrow>
      toggleSound sd s = stopSound s \<and> observable (toggleSound sd s) = Idle"
    by (auto simp add: toggleSound_def same_sound_def observable_def Idle_def stopSound_fields)
  have B: "\<not> (isPlaying s \<and> (\<exists>c. currentSound s = Some c \<and> id' c = id' sd)) \<longrightarrow>
      toggleSound sd s = playSound sd s"
    by (auto simp add: toggleSound_def same_sound_def split: option.splits)
  have C: "step ts (Toggle sd) s = toggleSound sd s"
    by (simp add: step_def)
  have D: "reachable ts s \<longrightarrow>
      (audioRef s \<noteq> None \<longrightarrow>
         isPlaying s \<and> \<not> isLoading s \<and>
         (\<exists>k<length (closures s).
            started (closures s ! k) \<and> thisPlayId (closures s ! k) = playIdRef s \<and>
            audioRef s = Some (audio (closures s ! k)) \<and>
            currentSound s = Some (sound (closures s ! k)))) \<and>
      (audioRef s = None \<longrightarrow> audible s = []) \<and>
      (\<not> isPlaying s \<longrightarrow> audioRef s = None \<and> currentSound s = None)"
  proof
    assume "reachable ts s"
    then have i: "inv s" by (rule reachable_inv)
    then have p: "inv_playing s" and l: "inv_live s" and a: "inv_active s"
      by (simp_all add: inv_def)
    have act: "isPlaying s \<and> \<not> isLoading s \<and>
         (\<exists>k<length (closures s).
            started (closures s ! k) \<and> thisPlayId (closures s ! k) = playIdRef s \<and>
            audioRef s = Some (audio (closures s ! k)) \<and>
            currentSound s = Some (sound (closures s ! k)))"
      if "audioRef s \<noteq> None"
    proof -
      from that obtain x where x: "audioRef s = Some x" by blast
      with a obtain k where k: "k < length (closures s)" "started (closures s ! k)"
        "thisPlayId (closures s ! k) = playIdRef s" "audio (closures s ! k) = x"
        unfolding inv_active_def by blast
      with l have "currentSound s = Some (sound (closures s ! k))" "isPlaying s" "\<not> isLoading s"
        unfolding inv_live_def by blast+
      with k x show ?thesis by blast
    qed
    have quiet: "audible s = []" if "audioRef s = None"
    proof (rule audible_empty)
      fix j assume "j < length (audios s)"
      with p that show "\<not> playing (audios s ! j)"
        unfolding inv_playing_def by auto
    qed
    have off: "audioRef s = None \<and> currentSound s = None" if "\<not> isPlaying s"
    proof -
      from a that have "currentSound s = None" unfolding inv_active_def by blast
      moreover from act that have "audioRef s = None" by blast
      ultimately show ?thesis by simp
    qed
    from act quiet off show
      "(audioRef s \<noteq> None \<longrightarrow>
         isPlaying s \<and> \<not> isLoading s \<and>
         (\<exists>k<length (closures s).
            started (closures s ! k) \<and> thisPlayId (closures s ! k) = playIdRef s \<and>
            audioRef s = Some (audio (closures s ! k)) \<and>
            currentSound s = Some (sound (closures s ! k)))) \<and>
      (audioRef s = None \<longrightarrow> audible s = []) \<and>
      (\<not> isPlaying s \<longrightarrow> audioRef s = None \<and> currentSound s = None)"
      by blast
  qed
  show ?thesis
    using A B C D by (intro conjI)
qed

theorem toggle_dispatch_witness:
  "toggleSound rain (run (\<lambda>_. []) [Play rain, PlayResolved 0] (useAmbientSounds parseFloat [])) =
     stopSound (run (\<lambda>_. []) [Play rain, PlayResolved 0] (useAmbientSounds parseFloat [])) \<and>
   observable
     (toggleSound rain
        (run (\<lambda>_. []) [Play rain, PlayResolved 0] (useAmbientSounds parseFloat []))) = Idle \<and>
   toggleSound birds (run (\<lambda>_. []) [Play rain, PlayResolved 0] (useAmbientSounds parseFloat [])) =
     playSound birds (run (\<lambda>_. []) [Play rain, PlayResolved 0] (useAmbientSounds parseFloat [])) \<and>
   \<not> isLoading (run (\<lambda>_. []) [Play rain, PlayResolved 0] (useAmbientSounds parseFloat [])) \<and>
   audible (run (\<lambda>_. []) [Play birds, PlayResolved 0, Play rain] (useAmbientSounds parseFloat [])) = [] \<and>
   toggleSound birds
     (run (\<lambda>_. []) [Play birds, PlayResolved 0, Play rain] (useAmbientSounds parseFloat [])) =
     stopSound (run (\<lambda>_. []) [Play birds, PlayResolved 0, Play rain] (useAmbientSounds parseFloat []))"
proof -
  let ?s = "run (\<lambda>_. []) [Play rain, PlayResolved 0] (useAmbientSounds parseFloat [])"
  let ?u = "run (\<lambda>_. []) [Play birds, PlayResolved 0, Play rain] (useAmbientSounds parseFloat [])"
  have r: "reachable (\<lambda>_. []) ?s" "reachable (\<lambda>_. []) ?u"
    by (rule reachable_run, rule reachable.mount)+
  have p: "isPlaying ?s" "audioRef ?s \<noteq> None"
    by code_simp+
  have c: "currentSound ?s = Some rain"
    by code_simp
  have d: "id' rain \<noteq> id' birds"
    by code_simp
  have u: "isPlaying ?u" "currentSound ?u = Some birds" "audioRef ?u = None"
    by code_simp+
  from p c have h1: "isPlaying ?s \<and> (\<exists>c. currentSound ?s = Some c \<and> id' c = id' rain)"
    by simp
  from c d have h2: "\<not> (isPlaying ?s \<and> (\<exists>c. currentSound ?s = Some c \<and> id' c = id' birds))"
    by simp
  from u have h3: "isPlaying ?u \<and> (\<exists>c. currentSound ?u = Some c \<and> id' c = id' birds)"
    by simp
  from toggle_dispatch [where s = ?s and sd = rain and ts = "\<lambda>_. []"] h1 r(1) p(2)
  have A: "toggleSound rain ?s = stopSound ?s \<and> observable (toggleSound rain ?s) = Idle \<and>
      \<not> isLoading ?s"
    by blast
  from toggle_dispatch [where s = ?s and sd = birds and ts = "\<lambda>_. []"] h2
  have B: "toggleSound birds ?s = playSound birds ?s"
    by blast
  from toggle_dispatch [where s = ?u and sd = birds and ts = "\<lambda>_. []"] h3 r(2) u(3)
  have C: "audible ?u = [] \<and> toggleSound birds ?u = stopSound ?u"
    by blast
  from A B C show ?thesis by blast
qed

text \<open>
  C5 as stated fails in a Loading state: with birds playing, \<open>play(rain)\<close> leaves the hook
  loading rain, with no active element and rain's closure not started, and
  \<open>toggle(birds)\<close> is \<open>stop()\<close> there, not \<open>play(birds)\<close>.
\<close>

theorem toggle_during_superseding_load:
  "isLoading (run (\<lambda>_. []) [Play birds, PlayResolved 0, Play rain] (useAmbientSounds parseFloat [])) \<and>
   audioRef (run (\<lambda>_. []) [Play birds, PlayResolved 0, Play rain] (useAmbientSounds parseFloat [])) =
     None \<and>
   pendingAudioRef
     (run (\<lambda>_. []) [Play birds, PlayResolved 0, Play rain] (useAmbientSounds parseFloat [])) =
     Some 1 \<and>
   map started
     (closures (run (\<lambda>_. []) [Play birds, PlayResolved 0, Play rain] (useAmbientSounds parseFloat []))) =
     [True, False] \<and>
   toggleSound birds
     (run (\<lambda>_. []) [Play birds, PlayResolved 0, Play rain] (useAmbientSounds parseFloat [])) =
     stopSound (run (\<lambda>_. []) [Play birds, PlayResolved 0, Play rain] (useAmbientSounds parseFloat [])) \<and>
   toggleSound birds
     (run (\<lambda>_. []) [Play birds, PlayResolved 0, Play rain] (useAmbientSounds parseFloat [])) \<noteq>
     playSound birds (run (\<lambda>_. []) [Play birds, PlayResolved 0, Play rain] (useAmbientSounds parseFloat [])) \<and>
   isLoading (playSound birds
     (run (\<lambda>_. []) [Play birds, PlayResolved 0, Play rain] (useAmbientSounds parseFloat []))) \<and>
   \<not> isLoading (toggleSound birds
     (run (\<lambda>_. []) [Play birds, PlayResolved 0, Play rain] (useAmbientSounds parseFloat [])))"
  by code_simp

subsection \<open>Generations\<close>

text \<open>
  C2. A delivery to a closure whose captured generation is not the live one, whichever
  of the five it is, leaves \<open>isPlaying\<close>, \<open>currentSound\<close> and \<open>isLoading\<close> as they were,
  and with them the refs, the generation counter, the volume and the console. The
  audible elements are the same as before, and there is at most one.
\<close>

theorem stale_callback_noop:
  assumes "reachable ts s" and "callback e = Some k" and "k < length (closures s)"
    and "thisPlayId (closures s ! k) \<noteq> playIdRef s"
  shows "observable (step ts e s) = observable s \<and>
         audioRef (step ts e s) = audioRef s \<and>
         pendingAudioRef (step ts e s) = pendingAudioRef s \<and>
         loadTimeoutRef (step ts e s) = loadTimeoutRef s \<and>
         playIdRef (step ts e s) = playIdRef s \<and>
         volume (step ts e s) = volume s \<and>
         console (step ts e s) = console s \<and>
         audible (step ts e s) = audible s \<and>
         length (audible (step ts e s)) \<le> 1"
  using assms by (rule stale_callback_frame)

theorem stale_callback_noop_witness:
  "observable (step (\<lambda>_. []) (PlayResolved 0)
      (run (\<lambda>_. []) [Play birds, Play rain] (useAmbientSounds parseFloat []))) =
   observable (run (\<lambda>_. []) [Play birds, Play rain] (useAmbientSounds parseFloat [])) \<and>
   audible (step (\<lambda>_. []) (PlayResolved 0)
      (run (\<lambda>_. []) [Play birds, Play rain] (useAmbientSounds parseFloat []))) = [] \<and>
   observable (step (\<lambda>_. []) (PlayResolved 0)
      (run (\<lambda>_. []) [Play birds, PlayResolved 0, Stop] (useAmbientSounds parseFloat []))) = Idle"
proof -
  let ?s = "run (\<lambda>_. []) [Play birds, Play rain] (useAmbientSounds parseFloat [])"
  let ?u = "run (\<lambda>_. []) [Play birds, PlayResolved 0, Stop] (useAmbientSounds parseFloat [])"
  have r: "reachable (\<lambda>_. []) ?s" "reachable (\<lambda>_. []) ?u"
    by (rule reachable_run, rule reachable.mount)+
  have c: "callback (PlayResolved 0) = Some 0"
    by (simp add: callback_def)
  have k: "0 < length (closures ?s)" "0 < length (closures ?u)"
    by code_simp+
  have g: "thisPlayId (closures ?s ! 0) \<noteq> playIdRef ?s" "thisPlayId (closures ?u ! 0) \<noteq> playIdRef ?u"
    by code_simp+
  have a: "audible ?s = []" "observable ?u = Idle"
    by code_simp+
  from stale_callback_noop [OF r(1) c k(1) g(1)] stale_callback_noop [OF r(2) c k(2) g(2)] a
  show ?thesis by simp
qed

text \<open>
  C3. For a closure of a reachable state: once it has started and its generation is
  live, a further fulfilled \<^verbatim>\<open>play()\<close> changes nothing but the count of promises the host
  still owes, and \<^verbatim>\<open>startPlayback\<close> issues no further \<^verbatim>\<open>play()\<close>; the first fulfilled
  \<^verbatim>\<open>play()\<close> of the live generation makes the hook play the closure's sound on the
  closure's element, the only audible one; a fulfilled \<^verbatim>\<open>play()\<close> of a superseded
  generation leaves its element paused and the UI state as it was. In every reachable
  state at most one element is audible, and it is the active one.
\<close>

theorem one_start_per_generation:
  assumes "reachable ts s" and "k < length (closures s)"
  shows "(thisPlayId (closures s ! k) = playIdRef s \<and> started (closures s ! k) \<longrightarrow>
            step ts (PlayResolved k) s = (if 0 < plays (closures s ! k) then settle k s else s) \<and>
            startPlayback k s = s \<and>
            observable s = (True, Some (sound (closures s ! k)), False)) \<and>
         (thisPlayId (closures s ! k) = playIdRef s \<and> \<not> started (closures s ! k) \<and>
          0 < plays (closures s ! k) \<longrightarrow>
            observable (step ts (PlayResolved k) s) = (True, Some (sound (closures s ! k)), False) \<and>
            audioRef (step ts (PlayResolved k) s) = Some (audio (closures s ! k)) \<and>
            started (closures (step ts (PlayResolved k) s) ! k) \<and>
            audible (step ts (PlayResolved k) s) = [audio (closures s ! k)]) \<and>
         (thisPlayId (closures s ! k) \<noteq> playIdRef s \<longrightarrow>
            \<not> playing (audios (step ts (PlayResolved k) s) ! audio (closures s ! k)) \<and>
            observable (step ts (PlayResolved k) s) = observable s \<and>
            startPlayback k s = s) \<and>
         length (audible s) \<le> 1 \<and>
         set (audible s) \<subseteq> set_option (audioRef s)"
proof -
  let ?c = "closures s ! k"
  let ?s' = "step ts (PlayResolved k) s"
  from assms(1) have i: "inv s" by (rule reachable_inv)
  from assms(1) have i': "inv ?s'" by (rule reachable_inv [OF reachable.after])
  from i assms(2) have lt: "audio ?c < length (audios s)"
    by (simp add: inv_def inv_closures_def)
  have A: "thisPlayId ?c = playIdRef s \<and> started ?c \<longrightarrow>
      step ts (PlayResolved k) s = (if 0 < plays ?c then settle k s else s) \<and>
      startPlayback k s = s \<and> observable s = (True, Some (sound ?c), False)"
  proof (intro impI, elim conjE)
    assume that: "thisPlayId ?c = playIdRef s" "started ?c"
    from i assms(2) that have "currentSound s = Some (sound ?c)" "isPlaying s" "\<not> isLoading s"
      by (simp_all add: inv_def inv_live_def)
    then show "step ts (PlayResolved k) s = (if 0 < plays ?c then settle k s else s) \<and>
      startPlayback k s = s \<and> observable s = (True, Some (sound ?c), False)"
      using started_live_resolved [OF i assms(2) that] assms(2) that
      by (simp add: step_def startPlayback_noop observable_def del: fire.simps)
  qed
  have B: "thisPlayId ?c = playIdRef s \<and> \<not> started ?c \<and> 0 < plays ?c \<longrightarrow>
      observable ?s' = (True, Some (sound ?c), False) \<and>
      audioRef ?s' = Some (audio ?c) \<and> started (closures ?s' ! k) \<and> audible ?s' = [audio ?c]"
  proof (intro impI, elim conjE)
    assume live: "thisPlayId ?c = playIdRef s" and en: "0 < plays ?c"
    from en assms(2) have st: "?s' = fire ts (PlayResolved k) s"
      by (simp add: step_def)
    note fs = fire_PlayResolved fire_PlayResolved_live [OF assms(2) live]
    have f: "observable ?s' = (True, Some (sound ?c), False)" "audioRef ?s' = Some (audio ?c)"
      "started (closures ?s' ! k)" "length (audios ?s') = length (audios s)"
      "playing (audios ?s' ! audio ?c)"
      unfolding st observable_def using assms(2) lt by (simp_all add: fs del: fire.simps)
    have "audible ?s' = [audio ?c]"
    proof (rule audible_single)
      show "audio ?c < length (audios ?s')" using lt f(4) by simp
      show "playing (audios ?s' ! audio ?c)" by (rule f(5))
      fix j assume "j < length (audios ?s')" "playing (audios ?s' ! j)"
      with i' have "audioRef ?s' = Some j" by (simp add: inv_def inv_playing_def)
      with f(2) show "j = audio ?c" by simp
    qed
    with f show "observable ?s' = (True, Some (sound ?c), False) \<and>
      audioRef ?s' = Some (audio ?c) \<and> started (closures ?s' ! k) \<and> audible ?s' = [audio ?c]"
      by simp
  qed
  have C: "thisPlayId ?c \<noteq> playIdRef s \<longrightarrow>
      \<not> playing (audios ?s' ! audio ?c) \<and> observable ?s' = observable s \<and>
      startPlayback k s = s"
  proof (intro impI)
    assume stale: "thisPlayId ?c \<noteq> playIdRef s"
    have c: "callback (PlayResolved k) = Some k" by (simp add: callback_def)
    have "audible ?s' = audible s" "observable ?s' = observable s"
      using stale_callback_frame [OF assms(1) c assms(2) stale] by simp_all
    moreover have "\<not> playing (audios s ! audio ?c)"
      by (rule stale_not_playing [OF i assms(2) stale])
    moreover have "length (audios ?s') = length (audios s)"
      by (simp add: step_def fire_PlayResolved del: fire.simps)
    ultimately have "\<not> playing (audios ?s' ! audio ?c)"
      using lt audible_iff [of "audio ?c" ?s'] audible_iff [of "audio ?c" s] by simp
    with \<open>observable ?s' = observable s\<close> stale
    show "\<not> playing (audios ?s' ! audio ?c) \<and> observable ?s' = observable s \<and>
      startPlayback k s = s"
      by (simp add: startPlayback_noop)
  qed
  from i have "inv_playing s" by (simp add: inv_def)
  then have D: "length (audible s) \<le> 1" and E: "set (audible s) \<subseteq> set_option (audioRef s)"
    by (rule inv_playing_audible)+
  show ?thesis
    using A B C D E by (intro conjI)
qed

theorem one_start_per_generation_witness:
  "step (\<lambda>_. []) (PlayResolved 0)
      (run (\<lambda>_. []) [Play rain, CanPlay 0, PlayResolved 0] (useAmbientSounds parseFloat [])) =
    settle 0 (run (\<lambda>_. []) [Play rain, CanPlay 0, PlayResolved 0] (useAmbientSounds parseFloat [])) \<and>
   observable (run (\<lambda>_. []) [Play rain, CanPlay 0, PlayResolved 0] (useAmbientSounds parseFloat [])) =
    (True, Some rain, False) \<and>
   observable (step (\<lambda>_. []) (PlayResolved 0)
      (run (\<lambda>_. []) [Play rain] (useAmbientSounds parseFloat []))) = (True, Some rain, False) \<and>
   audible (step (\<lambda>_. []) (PlayResolved 0)
      (run (\<lambda>_. []) [Play rain] (useAmbientSounds parseFloat []))) = [0] \<and>
   \<not> playing (audios (step (\<lambda>_. []) (PlayResolved 0)
      (run (\<lambda>_. []) [Play birds, Play rain] (useAmbientSounds parseFloat []))) ! 0)"
proof -
  let ?a = "run (\<lambda>_. []) [Play rain, CanPlay 0, PlayResolved 0] (useAmbientSounds parseFloat [])"
  let ?b = "run (\<lambda>_. []) [Play rain] (useAmbientSounds parseFloat [])"
  let ?c = "run (\<lambda>_. []) [Play birds, Play rain] (useAmbientSounds parseFloat [])"
  have r: "reachable (\<lambda>_. []) ?a" "reachable (\<lambda>_. []) ?b" "reachable (\<lambda>_. []) ?c"
    by (rule reachable_run, rule reachable.mount)+
  have k: "0 < length (closures ?a)" "0 < length (closures ?b)" "0 < length (closures ?c)"
    by code_simp+
  have a: "thisPlayId (closures ?a ! 0) = playIdRef ?a \<and> started (closures ?a ! 0)"
    "0 < plays (closures ?a ! 0)" "sound (closures ?a ! 0) = rain"
    by code_simp+
  have b: "thisPlayId (closures ?b ! 0) = playIdRef ?b \<and> \<not> started (closures ?b ! 0) \<and>
      0 < plays (closures ?b ! 0)"
    "sound (closures ?b ! 0) = rain" "audio (closures ?b ! 0) = 0"
    by code_simp+
  have c: "thisPlayId (closures ?c ! 0) \<noteq> playIdRef ?c" "audio (closures ?c ! 0) = 0"
    by code_simp+
  from one_start_per_generation [OF r(1) k(1)] a
  have A: "step (\<lambda>_. []) (PlayResolved 0) ?a = settle 0 ?a \<and> observable ?a = (True, Some rain, False)"
    by metis
  from one_start_per_generation [OF r(2) k(2)] b
  have B: "observable (step (\<lambda>_. []) (PlayResolved 0) ?b) = (True, Some rain, False) \<and>
      audible (step (\<lambda>_. []) (PlayResolved 0) ?b) = [0]"
    by metis
  from one_start_per_generation [OF r(3) k(3)] c
  have C: "\<not> playing (audios (step (\<lambda>_. []) (PlayResolved 0) ?c) ! 0)"
    by metis
  from A B C show ?thesis by blast
qed

subsection \<open>Stop\<close>

text \<open>
  C6. \<^verbatim>\<open>stopSound\<close> has no failing branch. From every reachable state it moves the
  generation counter past every closure, clears the two resource refs and the timer ref,
  leaves the elements they referred to paused and without a source, leaves nothing
  audible, and the UI observes Idle. A second call changes the generation counter only,
  and from an Idle state the UI observes no change.
\<close>

theorem stop_resets:
  assumes "reachable ts s"
  shows "observable (stopSound s) = Idle \<and>
         playIdRef (stopSound s) = playIdRef s + 1 \<and>
         (\<forall>k<length (closures (stopSound s)).
            thisPlayId (closures (stopSound s) ! k) \<noteq> playIdRef (stopSound s)) \<and>
         audioRef (stopSound s) = None \<and>
         pendingAudioRef (stopSound s) = None \<and>
         loadTimeoutRef (stopSound s) = None \<and>
         audible (stopSound s) = [] \<and>
         (\<forall>a. audioRef s = Some a \<or> pendingAudioRef s = Some a \<longrightarrow>
            src (audios (stopSound s) ! a) = [] \<and> \<not> playing (audios (stopSound s) ! a)) \<and>
         stopSound (stopSound s) = (stopSound s)\<lparr>playIdRef := playIdRef s + 2\<rparr> \<and>
         observable (stopSound (stopSound s)) = observable (stopSound s) \<and>
         (observable s = Idle \<longrightarrow> observable (stopSound s) = observable s) \<and>
         step ts Stop s = stopSound s"
proof -
  from assms have i: "inv s" by (rule reachable_inv)
  from assms have r: "refs_in_range s" by (rule reachable_refs_in_range)
  have stale: "\<forall>k<length (closures (stopSound s)).
      thisPlayId (closures (stopSound s) ! k) \<noteq> playIdRef (stopSound s)"
    using i by (auto simp add: stopSound_fields stopSound_closure inv_def inv_closures_def)
  have quiet: "audible (stopSound s) = []"
    using i by (intro audible_empty)
      (auto simp add: stopSound_fields stopSound_playing inv_def inv_playing_def)
  have released: "\<forall>a. audioRef s = Some a \<or> pendingAudioRef s = Some a \<longrightarrow>
      src (audios (stopSound s) ! a) = [] \<and> \<not> playing (audios (stopSound s) ! a)"
    using r by (auto simp add: refs_in_range_def stopSound_src stopSound_playing)
  have obs: "observable (stopSound s) = Idle" "observable (stopSound (stopSound s)) = Idle"
    by (simp_all add: observable_def Idle_def stopSound_fields)
  from stale quiet released obs show ?thesis
    by (simp add: stopSound_fields stopSound_twice step_def)
qed

theorem stop_resets_witness:
  "observable (stopSound (run (\<lambda>_. []) [Play rain, PlayResolved 0] (useAmbientSounds parseFloat []))) = Idle \<and>
   audible (stopSound (run (\<lambda>_. []) [Play rain, PlayResolved 0] (useAmbientSounds parseFloat []))) = [] \<and>
   src (audios (stopSound (run (\<lambda>_. []) [Play rain, PlayResolved 0] (useAmbientSounds parseFloat []))) ! 0) = [] \<and>
   thisPlayId (closures (stopSound (run (\<lambda>_. []) [Play rain, PlayResolved 0] (useAmbientSounds parseFloat []))) ! 0) \<noteq>
     playIdRef (stopSound (run (\<lambda>_. []) [Play rain, PlayResolved 0] (useAmbientSounds parseFloat []))) \<and>
   observable (stopSound (useAmbientSounds parseFloat [])) = observable (useAmbientSounds parseFloat [])"
proof -
  let ?s = "run (\<lambda>_. []) [Play rain, PlayResolved 0] (useAmbientSounds parseFloat [])"
  let ?u = "useAmbientSounds parseFloat []"
  have r: "reachable (\<lambda>_. []) ?s"
    by (rule reachable_run, rule reachable.mount)
  have r0: "reachable (\<lambda>_. []) ?u"
    by (rule reachable.mount)
  have a: "audioRef ?s = Some 0" "0 < length (closures (stopSound ?s))" "observable ?u = Idle"
    by code_simp+
  from stop_resets [OF r] stop_resets [OF r0] a
  show ?thesis by auto
qed

subsection \<open>Play\<close>

text \<open>
  C1, as the code has it. \<^verbatim>\<open>playSound\<close> has no guard: from every reachable state, loading
  or not, \<open>play(A)\<close> followed at once by \<open>play(B)\<close> moves the generation counter twice and,
  when the volume is one the element takes, leaves \<open>B\<close>'s element pending and loading.
  Whatever the host delivers afterwards, \<open>A\<close>'s element is never audible, only \<open>B\<close>'s can
  be, and every closure of the live generation carries \<open>B\<close>. The UI shows \<open>B\<close> playing
  once \<open>B\<close> is confirmed; until then it shows the \<open>isPlaying\<close> and \<open>currentSound\<close> it
  showed before \<open>play(A)\<close>, so Loading or Idle when nothing was playing then.
\<close>

theorem play_supersedes:
  assumes "reachable ts s0" and "host_only es"
  shows "let s1 = step ts (Play B) (step ts (Play A) s0); s = run ts es s1 in
           playIdRef s = playIdRef s0 + 2 \<and>
           length (audios s0) \<notin> set (audible s) \<and>
           set (audible s) \<subseteq> {Suc (length (audios s0))} \<and>
           (\<forall>k<length (closures s).
              thisPlayId (closures s ! k) = playIdRef s \<longrightarrow> sound (closures s ! k) = B) \<and>
           (observable s = (True, Some B, False) \<or>
            isPlaying s = isPlaying s0 \<and> currentSound s = currentSound s0) \<and>
           (\<not> isPlaying s0 \<longrightarrow>
              observable s = (True, Some B, False) \<or> observable s = (False, None, True) \<or>
              observable s = Idle) \<and>
           (volume_setter (volumeRef s0) = None \<longrightarrow>
              isLoading s1 \<and> pendingAudioRef s1 = Some (Suc (length (audios s0))) \<and>
              src (audios s1 ! Suc (length (audios s0))) = audioUrl B)"
proof -
  define s1 where "s1 = step ts (Play B) (step ts (Play A) s0)"
  define s where "s = run ts es s1"
  let ?b = "Suc (length (audios s0))"
  have s1: "s1 = playSound B (playSound A s0)"
    by (simp add: s1_def step_def)
  from assms(1) have i0: "inv s0" by (rule reachable_inv)
  have "reachable ts s1"
    unfolding s1_def by (intro reachable.after assms(1))
  then have "reachable ts s"
    unfolding s_def by (rule reachable_run)
  then have i: "inv s" by (rule reachable_inv)
  from toward_play_play [OF i0] have "toward B ?b (isPlaying s0) (currentSound s0) s1"
    by (simp add: s1)
  from toward_run [OF this assms(2)]
  have t: "toward B ?b (isPlaying s0) (currentSound s0) s" and g: "playIdRef s = playIdRef s1"
    by (simp_all add: s_def)
  from g have P: "playIdRef s = playIdRef s0 + 2"
    by (simp add: s1 playSound_fields)
  have sub: "set (audible s) \<subseteq> {?b}"
  proof
    fix j assume "j \<in> set (audible s)"
    then have "j < length (audios s)" "playing (audios s ! j)"
      by (simp_all add: audible_iff)
    with i have "audioRef s = Some j" by (simp add: inv_def inv_playing_def)
    with t have "j = ?b" unfolding toward_def by auto
    then show "j \<in> {?b}" by simp
  qed
  then have notA: "length (audios s0) \<notin> set (audible s)" by auto
  from t have L: "\<forall>k<length (closures s).
      thisPlayId (closures s ! k) = playIdRef s \<longrightarrow> sound (closures s ! k) = B"
    unfolding toward_def by blast
  from t have O: "observable s = (True, Some B, False) \<or>
      isPlaying s = isPlaying s0 \<and> currentSound s = currentSound s0"
    unfolding toward_def observable_def by auto
  have O': "\<not> isPlaying s0 \<longrightarrow>
      observable s = (True, Some B, False) \<or> observable s = (False, None, True) \<or>
      observable s = Idle"
  proof
    assume off: "\<not> isPlaying s0"
    with i0 have "currentSound s0 = None" by (simp add: inv_def inv_active_def)
    with O off show "observable s = (True, Some B, False) \<or> observable s = (False, None, True) \<or>
      observable s = Idle"
      unfolding observable_def Idle_def by (cases "isLoading s") auto
  qed
  have V: "volume_setter (volumeRef s0) = None \<longrightarrow>
      isLoading s1 \<and> pendingAudioRef s1 = Some ?b \<and> src (audios s1 ! ?b) = audioUrl B"
  proof
    assume "volume_setter (volumeRef s0) = None"
    then have "volume_setter (volumeRef (playSound A s0)) = None"
      by (simp add: playSound_fields)
    from playSound_accepted [OF this, of B]
    show "isLoading s1 \<and> pendingAudioRef s1 = Some ?b \<and> src (audios s1 ! ?b) = audioUrl B"
      by (simp add: s1 playSound_fields)
  qed
  from P notA sub L O O' V show ?thesis
    unfolding Let_def s_def [symmetric] s1_def [symmetric] by (intro conjI)
qed

theorem play_supersedes_witness:
  "playIdRef (run (\<lambda>_. []) [PlayResolved 0, CanPlay 1, PlayResolved 1]
      (step (\<lambda>_. []) (Play rain) (step (\<lambda>_. []) (Play birds) (useAmbientSounds parseFloat [])))) = 2 \<and>
   0 \<notin> set (audible (run (\<lambda>_. []) [PlayResolved 0, CanPlay 1, PlayResolved 1]
      (step (\<lambda>_. []) (Play rain) (step (\<lambda>_. []) (Play birds) (useAmbientSounds parseFloat []))))) \<and>
   observable (run (\<lambda>_. []) [PlayResolved 0, CanPlay 1, PlayResolved 1]
      (step (\<lambda>_. []) (Play rain) (step (\<lambda>_. []) (Play birds) (useAmbientSounds parseFloat [])))) =
     (True, Some rain, False)"
proof -
  let ?m = "useAmbientSounds parseFloat []"
  let ?s = "run (\<lambda>_. []) [PlayResolved 0, CanPlay 1, PlayResolved 1]
      (step (\<lambda>_. []) (Play rain) (step (\<lambda>_. []) (Play birds) ?m))"
  have h: "host_only [PlayResolved 0, CanPlay 1, PlayResolved 1]"
    by (simp add: host_only_def callback_def)
  have a: "playIdRef ?m = 0" "length (audios ?m) = 0"
    by (simp_all add: useAmbientSounds_def)
  have o: "observable ?s = (True, Some rain, False)"
    by code_simp
  from play_supersedes [where B = rain and A = birds, OF reachable.mount h]
  have "playIdRef ?s = playIdRef ?m + 2 \<and> length (audios ?m) \<notin> set (audible ?s)"
    unfolding Let_def by blast
  with a o show ?thesis by simp
qed

text \<open>
  C1 as stated fails when a sound was playing before: with birds playing, \<open>play(forest)\<close>,
  \<open>play(rain)\<close> and a load error of rain leave the UI showing birds playing, with nothing
  audible.
\<close>

theorem play_supersedes_from_playing:
  "observable (run (\<lambda>_. []) [Play birds, PlayResolved 0, Play forest, Play rain, LoadError 2]
      (useAmbientSounds parseFloat [])) = (True, Some birds, False) \<and>
   birds \<noteq> rain \<and>
   audible (run (\<lambda>_. []) [Play birds, PlayResolved 0, Play forest, Play rain, LoadError 2]
      (useAmbientSounds parseFloat [])) = []"
  by code_simp

subsection \<open>The \<open>isPlaying\<close> flag\<close>

text \<open>
  C4, as the code has it. \<open>isPlaying\<close> turns from false to true only when a \<^verbatim>\<open>play()\<close>
  promise of the live generation is fulfilled, and \<open>currentSound\<close> is then that generation's
  sound; it turns from true to false only on stop (directly or through toggle);
  \<^verbatim>\<open>playSound\<close> leaves both as they were. So while \<open>isPlaying\<close> holds, \<open>currentSound\<close> is the
  sound of a closure that has started, and while it does not hold there is no current
  sound and nothing is audible.
\<close>

theorem isPlaying_set_on_confirmation:
  assumes "reachable ts s"
  shows "(\<not> isPlaying s \<and> isPlaying (step ts e s) \<longrightarrow>
            (\<exists>k<length (closures s).
               e = PlayResolved k \<and> thisPlayId (closures s ! k) = playIdRef s \<and>
               0 < plays (closures s ! k) \<and>
               currentSound (step ts e s) = Some (sound (closures s ! k)))) \<and>
         (isPlaying s \<longrightarrow>
            (\<exists>k<length (closures s).
               started (closures s ! k) \<and> currentSound s = Some (sound (closures s ! k)))) \<and>
         (\<not> isPlaying s \<longrightarrow> currentSound s = None \<and> audible s = []) \<and>
         (isPlaying s \<and> \<not> isPlaying (step ts e s) \<longrightarrow> e = Stop \<or> (\<exists>sd. e = Toggle sd)) \<and>
         isPlaying (playSound sd s) = isPlaying s \<and>
         currentSound (playSound sd s) = currentSound s"
proof -
  from assms have i: "inv s" by (rule reachable_inv)
  have same: "isPlaying (step ts e s) = isPlaying s"
    if "\<not> (\<exists>k<length (closures s). e = PlayResolved k \<and> thisPlayId (closures s ! k) = playIdRef s \<and>
          0 < plays (closures s ! k))" "e \<noteq> Stop" "\<forall>sd. e \<noteq> Toggle sd"
  proof (cases e)
    case (PlayResolved k)
    show ?thesis
    proof (cases "enabled e s")
      case True
      with PlayResolved that(1) have k: "k < length (closures s)"
        and st: "thisPlayId (closures s ! k) \<noteq> playIdRef s"
        by auto
      from True PlayResolved show ?thesis
        by (simp add: step_def fire_PlayResolved_stale [OF k st] del: fire.simps)
    qed (simp add: step_def)
  next
    case (Play x)
    then show ?thesis by (simp add: step_def playSound_fields)
  next
    case (ChangeVolume v)
    then show ?thesis by (simp add: step_def changeVolume_fields)
  next
    case (CanPlay k)
    then show ?thesis by (simp add: step_def fire_CanPlay del: fire.simps)
  next
    case (Timeout k)
    then show ?thesis by (simp add: step_def fire_Timeout del: fire.simps)
  next
    case (LoadError k)
    then show ?thesis by (simp add: step_def fire_LoadError del: fire.simps)
  next
    case (PlayRejected k)
    then show ?thesis by (simp add: step_def fire_PlayRejected del: fire.simps)
  qed (use that in simp_all)
  have A: "\<not> isPlaying s \<and> isPlaying (step ts e s) \<longrightarrow>
      (\<exists>k<length (closures s).
         e = PlayResolved k \<and> thisPlayId (closures s ! k) = playIdRef s \<and>
         0 < plays (closures s ! k) \<and>
         currentSound (step ts e s) = Some (sound (closures s ! k)))"
  proof (intro impI, elim conjE)
    assume off: "\<not> isPlaying s" and on: "isPlaying (step ts e s)"
    have "e \<noteq> Stop" "\<forall>sd. e \<noteq> Toggle sd"
      using on off
      by (auto simp add: step_def stopSound_fields toggleSound_def playSound_fields)
    with same off on obtain k where k: "k < length (closures s)" "e = PlayResolved k"
      "thisPlayId (closures s ! k) = playIdRef s" "0 < plays (closures s ! k)"
      by blast
    then have "currentSound (step ts e s) = Some (sound (closures s ! k))"
      by (simp add: step_def fire_PlayResolved_live [OF k(1,3)] del: fire.simps)
    with k show "\<exists>k<length (closures s).
         e = PlayResolved k \<and> thisPlayId (closures s ! k) = playIdRef s \<and>
         0 < plays (closures s ! k) \<and>
         currentSound (step ts e s) = Some (sound (closures s ! k))"
      by blast
  qed
  from i have B: "isPlaying s \<longrightarrow>
      (\<exists>k<length (closures s).
         started (closures s ! k) \<and> currentSound s = Some (sound (closures s ! k)))"
    by (simp add: inv_def inv_active_def)
  have C: "\<not> isPlaying s \<longrightarrow> currentSound s = None \<and> audible s = []"
  proof (intro impI conjI)
    assume off: "\<not> isPlaying s"
    with i show "currentSound s = None" by (simp add: inv_def inv_active_def)
    show "audible s = []"
    proof (rule audible_empty)
      fix j assume j: "j < length (audios s)"
      show "\<not> playing (audios s ! j)"
      proof
        assume "playing (audios s ! j)"
        with i j have "audioRef s = Some j" by (simp add: inv_def inv_playing_def)
        with i obtain k where "k < length (closures s)" "started (closures s ! k)"
          "thisPlayId (closures s ! k) = playIdRef s"
          unfolding inv_def inv_active_def by blast
        with i have "isPlaying s" unfolding inv_def inv_live_def by blast
        with off show False by simp
      qed
    qed
  qed
  have D: "isPlaying s \<and> \<not> isPlaying (step ts e s) \<longrightarrow> e = Stop \<or> (\<exists>sd. e = Toggle sd)"
  proof (intro impI, elim conjE)
    assume on: "isPlaying s" and off: "\<not> isPlaying (step ts e s)"
    show "e = Stop \<or> (\<exists>sd. e = Toggle sd)"
    proof (rule ccontr)
      assume n: "\<not> (e = Stop \<or> (\<exists>sd. e = Toggle sd))"
      show False
      proof (cases "\<exists>k<length (closures s). e = PlayResolved k \<and>
          thisPlayId (closures s ! k) = playIdRef s \<and> 0 < plays (closures s ! k)")
        case True
        then obtain k where k: "k < length (closures s)" "e = PlayResolved k"
          "thisPlayId (closures s ! k) = playIdRef s" "0 < plays (closures s ! k)"
          by blast
        then have "isPlaying (step ts e s)"
          by (simp add: step_def fire_PlayResolved_live [OF k(1,3)] del: fire.simps)
        with off show False by simp
      next
        case False
        with same n have "isPlaying (step ts e s) = isPlaying s" by blast
        with on off show False by simp
      qed
    qed
  qed
  show ?thesis
    using A B C D by (simp add: playSound_fields)
qed

theorem isPlaying_set_on_confirmation_witness:
  "(\<exists>k<length (closures (run (\<lambda>_. []) [Play rain] (useAmbientSounds parseFloat []))).
      PlayResolved 0 = PlayResolved k \<and>
      thisPlayId (closures (run (\<lambda>_. []) [Play rain] (useAmbientSounds parseFloat [])) ! k) =
        playIdRef (run (\<lambda>_. []) [Play rain] (useAmbientSounds parseFloat [])) \<and>
      0 < plays (closures (run (\<lambda>_. []) [Play rain] (useAmbientSounds parseFloat [])) ! k) \<and>
      currentSound (step (\<lambda>_. []) (PlayResolved 0)
         (run (\<lambda>_. []) [Play rain] (useAmbientSounds parseFloat []))) =
        Some (sound (closures (run (\<lambda>_. []) [Play rain] (useAmbientSounds parseFloat [])) ! k))) \<and>
   audible (run (\<lambda>_. []) [Play rain] (useAmbientSounds parseFloat [])) = []"
proof -
  let ?s = "run (\<lambda>_. []) [Play rain] (useAmbientSounds parseFloat [])"
  have r: "reachable (\<lambda>_. []) ?s"
    by (rule reachable_run, rule reachable.mount)
  have h: "\<not> isPlaying ?s \<and> isPlaying (step (\<lambda>_. []) (PlayResolved 0) ?s)"
    by code_simp
  from isPlaying_set_on_confirmation [OF r, of "PlayResolved 0"] h
  show ?thesis by blast
qed

text \<open>
  C4 as stated fails: with birds playing, \<open>play(rain)\<close> leaves \<open>isPlaying\<close> true and
  \<open>currentSound\<close> birds while generation 2, rain's, is loading and has not started.
\<close>

theorem isPlaying_during_superseding_load:
  "isPlaying (run (\<lambda>_. []) [Play birds, PlayResolved 0, Play rain] (useAmbientSounds parseFloat [])) \<and>
   isLoading (run (\<lambda>_. []) [Play birds, PlayResolved 0, Play rain] (useAmbientSounds parseFloat [])) \<and>
   currentSound (run (\<lambda>_. []) [Play birds, PlayResolved 0, Play rain] (useAmbientSounds parseFloat [])) =
     Some birds \<and>
   playIdRef (run (\<lambda>_. []) [Play birds, PlayResolved 0, Play rain] (useAmbientSounds parseFloat [])) = 2 \<and>
   map thisPlayId
     (closures (run (\<lambda>_. []) [Play birds, PlayResolved 0, Play rain] (useAmbientSounds parseFloat []))) =
     [1, 2] \<and>
   map started
     (closures (run (\<lambda>_. []) [Play birds, PlayResolved 0, Play rain] (useAmbientSounds parseFloat []))) =
     [True, False] \<and>
   audible (run (\<lambda>_. []) [Play birds, PlayResolved 0, Play rain] (useAmbientSounds parseFloat [])) = []"
  by code_simp

subsection \<open>Load errors\<close>

text \<open>
  C7, as the code has it. The \<^verbatim>\<open>error\<close> handler of the live generation logs the diagnostic
  and clears \<open>isLoading\<close>, and that is all: \<open>isPlaying\<close>, \<open>currentSound\<close>, the generation
  counter, the three refs and the elements stay as they were. So the UI observes Idle
  afterwards exactly when \<open>isPlaying\<close> did not hold as the error arrived; when it held,
  for the sound of this request already confirmed or for a superseded one, the UI goes on
  showing that sound as playing. The handler has no failing branch.
\<close>

theorem load_error_handled:
  assumes "reachable ts s" and "k < length (closures s)" and "errorArmed (closures s ! k)"
    and "thisPlayId (closures s ! k) = playIdRef s"
  shows "step ts (LoadError k) s =
           s\<lparr>closures := modify k (\<lambda>c. c\<lparr>errorArmed := False\<rparr>) (closures s),
             console := console s @ [[''Error loading sound:'', audioUrl (sound (closures s ! k))]],
             isLoading := False\<rparr> \<and>
         \<not> isLoading (step ts (LoadError k) s) \<and>
         isPlaying (step ts (LoadError k) s) = isPlaying s \<and>
         currentSound (step ts (LoadError k) s) = currentSound s \<and>
         playIdRef (step ts (LoadError k) s) = playIdRef s \<and>
         audioRef (step ts (LoadError k) s) = audioRef s \<and>
         pendingAudioRef (step ts (LoadError k) s) = pendingAudioRef s \<and>
         loadTimeoutRef (step ts (LoadError k) s) = loadTimeoutRef s \<and>
         audios (step ts (LoadError k) s) = audios s \<and>
         (\<not> isPlaying s \<longrightarrow> observable (step ts (LoadError k) s) = Idle) \<and>
         observable (step ts (LoadError k) s) = (isPlaying s, currentSound s, False) \<and>
         (observable (step ts (LoadError k) s) = Idle) = (\<not> isPlaying s)"
proof -
  from assms(1) have "inv s" by (rule reachable_inv)
  then have cur: "\<not> isPlaying s \<longrightarrow> currentSound s = None"
    by (simp add: inv_def inv_active_def)
  from assms(2,3) have st: "step ts (LoadError k) s = fire ts (LoadError k) s"
    by (simp add: step_def)
  have eq: "fire ts (LoadError k) s =
           s\<lparr>closures := modify k (\<lambda>c. c\<lparr>errorArmed := False\<rparr>) (closures s),
             console := console s @ [[''Error loading sound:'', audioUrl (sound (closures s ! k))]],
             isLoading := False\<rparr>"
    using assms(2,4) by (simp add: handleError_def Let_def nth_modify)
  show ?thesis
    unfolding st using cur
    by (auto simp add: eq observable_def Idle_def simp del: fire.simps)
qed

theorem load_error_handled_witness:
  "\<not> isLoading (step (\<lambda>_. []) (LoadError 0)
       (run (\<lambda>_. []) [Play rain] (useAmbientSounds parseFloat []))) \<and>
   console (step (\<lambda>_. []) (LoadError 0)
       (run (\<lambda>_. []) [Play rain] (useAmbientSounds parseFloat []))) =
     [[''Error loading sound:'', ''/sounds/ambients/rain.mp3'']] \<and>
   observable (step (\<lambda>_. []) (LoadError 0)
       (run (\<lambda>_. []) [Play rain] (useAmbientSounds parseFloat []))) = Idle \<and>
   observable (step (\<lambda>_. []) (LoadError 0)
       (run (\<lambda>_. []) [Play rain, PlayResolved 0] (useAmbientSounds parseFloat []))) =
     (True, Some rain, False)"
proof -
  let ?s = "run (\<lambda>_. []) [Play rain] (useAmbientSounds parseFloat [])"
  let ?u = "run (\<lambda>_. []) [Play rain, PlayResolved 0] (useAmbientSounds parseFloat [])"
  have r: "reachable (\<lambda>_. []) ?s" "reachable (\<lambda>_. []) ?u"
    by (rule reachable_run, rule reachable.mount)+
  have h: "0 < length (closures ?s)" "errorArmed (closures ?s ! 0)"
    "thisPlayId (closures ?s ! 0) = playIdRef ?s"
    by code_simp+
  have g: "0 < length (closures ?u)" "errorArmed (closures ?u ! 0)"
    "thisPlayId (closures ?u ! 0) = playIdRef ?u"
    by code_simp+
  have o: "\<not> isPlaying ?s" "isPlaying ?u" "currentSound ?u = Some rain"
    by code_simp+
  have c: "console (step (\<lambda>_. []) (LoadError 0) ?s) =
      [[''Error loading sound:'', ''/sounds/ambients/rain.mp3'']]"
    by code_simp
  from load_error_handled [OF r(1) h] o(1) c
  have A: "\<not> isLoading (step (\<lambda>_. []) (LoadError 0) ?s) \<and>
      console (step (\<lambda>_. []) (LoadError 0) ?s) =
        [[''Error loading sound:'', ''/sounds/ambients/rain.mp3'']] \<and>
      observable (step (\<lambda>_. []) (LoadError 0) ?s) = Idle"
    by blast
  from load_error_handled [OF r(2) g]
  have e: "observable (step (\<lambda>_. []) (LoadError 0) ?u) = (isPlaying ?u, currentSound ?u, False)"
    by blast
  have B: "observable (step (\<lambda>_. []) (LoadError 0) ?u) = (True, Some rain, False)"
    unfolding e using o(2,3) by (simp del: run.simps)
  from A B show ?thesis by blast
qed

text \<open>
  C7 as stated fails. After \<open>play(rain)\<close> from the initial state and a load error, the
  element is still the pending one, still has its source, and its retry timer is still
  scheduled: nothing was released. With birds playing before \<open>play(rain)\<close>, the load error
  leaves the UI showing birds playing with nothing audible.
\<close>

theorem load_error_keeps_resource:
  "thisPlayId (closures (run (\<lambda>_. []) [Play rain] (useAmbientSounds parseFloat [])) ! 0) =
     playIdRef (run (\<lambda>_. []) [Play rain] (useAmbientSounds parseFloat [])) \<and>
   pendingAudioRef (run (\<lambda>_. []) [Play rain, LoadError 0] (useAmbientSounds parseFloat [])) = Some 0 \<and>
   src (audios (run (\<lambda>_. []) [Play rain, LoadError 0] (useAmbientSounds parseFloat [])) ! 0) =
     ''/sounds/ambients/rain.mp3'' \<and>
   loadTimeoutRef (run (\<lambda>_. []) [Play rain, LoadError 0] (useAmbientSounds parseFloat [])) = Some 0 \<and>
   timerArmed (closures (run (\<lambda>_. []) [Play rain, LoadError 0] (useAmbientSounds parseFloat [])) ! 0) \<and>
   thisPlayId
     (closures (run (\<lambda>_. []) [Play birds, PlayResolved 0, Play rain] (useAmbientSounds parseFloat [])) ! 1) =
     playIdRef (run (\<lambda>_. []) [Play birds, PlayResolved 0, Play rain] (useAmbientSounds parseFloat [])) \<and>
   observable (run (\<lambda>_. []) [Play birds, PlayResolved 0, Play rain, LoadError 1]
     (useAmbientSounds parseFloat [])) = (True, Some birds, False) \<and>
   audible (run (\<lambda>_. []) [Play birds, PlayResolved 0, Play rain, LoadError 1]
     (useAmbientSounds parseFloat [])) = []"
  by code_simp

end
